theory Spec2Isabelle
  imports Complex_Main "HOL-Library.Word" "HOL-Library.Log_Nat"
begin

unbundle bit_operations_syntax

chapter \<open>The program\<close>

section \<open>The MIDI file reader as seen by the player\<close>

text \<open>
  Modelled from the spec: the event kinds and constants of \<^verbatim>\<open>midifile.h\<close>, which the player
  includes and which is not among the sources at hand. The kinds are those the spec
  names (note off and on, aftertouch, controller, program change, channel aftertouch, pitch
  bend, the meta events with the tempo among them, and the others, which are dropped);
  their codes are the MIDI status bytes, which the player copies into the packed event
  word and tests again with \<^verbatim>\<open>MIDIEVENT_TYPE\<close>. A track has 16 channels.
\<close>

datatype midi_event_type_t =
    MIDI_EVENT_NOTE_OFF
  | MIDI_EVENT_NOTE_ON
  | MIDI_EVENT_AFTERTOUCH
  | MIDI_EVENT_CONTROLLER
  | MIDI_EVENT_PROGRAM_CHANGE
  | MIDI_EVENT_CHAN_AFTERTOUCH
  | MIDI_EVENT_PITCH_BEND
  | MIDI_EVENT_SYSEX
  | MIDI_EVENT_SYSEX_SPLIT
  | MIDI_EVENT_META

fun event_type_code :: "midi_event_type_t \<Rightarrow> 32 word" where
  "event_type_code MIDI_EVENT_NOTE_OFF = 0x80"
| "event_type_code MIDI_EVENT_NOTE_ON = 0x90"
| "event_type_code MIDI_EVENT_AFTERTOUCH = 0xA0"
| "event_type_code MIDI_EVENT_CONTROLLER = 0xB0"
| "event_type_code MIDI_EVENT_PROGRAM_CHANGE = 0xC0"
| "event_type_code MIDI_EVENT_CHAN_AFTERTOUCH = 0xD0"
| "event_type_code MIDI_EVENT_PITCH_BEND = 0xE0"
| "event_type_code MIDI_EVENT_SYSEX = 0xF0"
| "event_type_code MIDI_EVENT_SYSEX_SPLIT = 0xF7"
| "event_type_code MIDI_EVENT_META = 0xFF"

definition MIDI_CONTROLLER_MAIN_VOLUME :: "32 word" where
  "MIDI_CONTROLLER_MAIN_VOLUME = 0x7"

definition MIDI_META_SET_TEMPO :: "32 word" where
  "MIDI_META_SET_TEMPO = 0x51"

definition MIDI_CHANNELS_PER_TRACK :: nat where
  "MIDI_CHANNELS_PER_TRACK = 16"

text \<open>The two event tags of \<^verbatim>\<open>mmsystem.h\<close> that the player shifts into the top byte.\<close>

definition MEVT_SHORTMSG :: "32 word" where
  "MEVT_SHORTMSG = 0x00"

definition MEVT_TEMPO :: "32 word" where
  "MEVT_TEMPO = 0x01"

text \<open>
  One event of a track: the union of channel and meta data is flattened, every field
  an \<^verbatim>\<open>unsigned int\<close>, the meta payload a byte string.
\<close>

record midi_event_t =
  delta_time :: "32 word"
  event_type :: midi_event_type_t
  channel :: "32 word"
  param1 :: "32 word"
  param2 :: "32 word"
  meta_type :: "32 word"
  meta_data :: "8 word list"

record midi_file_t =
  file_tracks :: "midi_event_t list list"
  time_division :: "32 word"

record midi_track_iter_t =
  track :: "midi_event_t list"
  iter_position :: nat

text \<open>
  Modelled from the spec: the track iterator of \<^verbatim>\<open>midifile.cpp\<close>, which is not among the
  sources at hand. A track cursor reports the time until its next event and consumes and
  returns that event; it is exhausted when it yields no further event, and then has no
  time left to report. The file reports its number of tracks and its total number of
  events, the sum over the tracks.
\<close>

definition MIDI_NumTracks :: "midi_file_t \<Rightarrow> nat" where
  "MIDI_NumTracks file = length (file_tracks file)"

definition MIDI_NumEvents :: "midi_file_t \<Rightarrow> nat" where
  "MIDI_NumEvents file = sum_list (map length (file_tracks file))"

definition MIDI_IterateTrack :: "midi_file_t \<Rightarrow> nat \<Rightarrow> midi_track_iter_t" where
  "MIDI_IterateTrack file i = \<lparr>track = file_tracks file ! i, iter_position = 0\<rparr>"

definition MIDI_GetDeltaTime :: "midi_track_iter_t \<Rightarrow> 32 word" where
  "MIDI_GetDeltaTime it =
     (if iter_position it < length (track it)
      then delta_time (track it ! iter_position it) else 0)"

definition MIDI_GetNextEvent :: "midi_track_iter_t \<Rightarrow> (midi_event_t \<times> midi_track_iter_t) option" where
  "MIDI_GetNextEvent it =
     (if iter_position it < length (track it)
      then Some (track it ! iter_position it, it\<lparr>iter_position := iter_position it + 1\<rparr>)
      else None)"

section \<open>Data of the player\<close>

record native_event_t =
  dwDeltaTime :: "32 word"
  dwStreamID :: "32 word"
  dwEvent :: "32 word"

record win_midi_song_t =
  native_events :: "native_event_t list"
  num_events :: int
  position :: int
  looping :: bool

record win_midi_track_t =
  iter :: "midi_track_iter_t option"
  absolute_time :: int

text \<open>What C++ leaves undefined is an error value of the model.\<close>

datatype error =
    WriteOutOfBounds
  | ReadOutOfBounds
  | TableOutOfBounds
  | NullPointer

text \<open>
  \<^verbatim>\<open>int\<close> is 32 bits wide. Sums and differences are computed in the integers and brought
  back into range, as the conversion from \<^verbatim>\<open>unsigned\<close> does.
\<close>

definition INT_MAX :: int where
  "INT_MAX = 2 ^ 31 - 1"

definition to_int32 :: "int \<Rightarrow> int" where
  "to_int32 x = (x + 2 ^ 31) mod 2 ^ 32 - 2 ^ 31"

section \<open>MIDItoStream\<close>

text \<open>
  The scan for the open track with the least candidate time: \<open>i\<close> is the loop counter,
  \<open>min_time\<close> and \<open>idx\<close> the two locals it updates.
\<close>

fun scan_tracks :: "win_midi_track_t list \<Rightarrow> int \<Rightarrow> int \<Rightarrow> int \<Rightarrow> int \<times> int" where
  "scan_tracks [] i min_time idx = (min_time, idx)"
| "scan_tracks (t # ts) i min_time idx =
     (case iter t of
        None \<Rightarrow> scan_tracks ts (i + 1) min_time idx
      | Some it \<Rightarrow>
          (let time = to_int32 (absolute_time t + uint (MIDI_GetDeltaTime it))
           in if time < min_time then scan_tracks ts (i + 1) time i
              else scan_tracks ts (i + 1) min_time idx))"

text \<open>The switch on the event kind, giving the packed event word (0: nothing to emit).\<close>

definition event_data :: "midi_event_t \<Rightarrow> error + 32 word" where
  "event_data event =
     (case event_type event of
        MIDI_EVENT_META \<Rightarrow>
          if meta_type event = MIDI_META_SET_TEMPO
          then if length (meta_data event) < 3 then Inl ReadOutOfBounds
               else Inr (ucast (meta_data event ! 2)
                         OR push_bit 8 (ucast (meta_data event ! 1))
                         OR push_bit 16 (ucast (meta_data event ! 0))
                         OR push_bit 24 MEVT_TEMPO)
          else Inr 0
      | MIDI_EVENT_NOTE_OFF \<Rightarrow>
          Inr (event_type_code (event_type event) OR channel event
               OR push_bit 8 (param1 event) OR push_bit 16 (param2 event)
               OR push_bit 24 MEVT_SHORTMSG)
      | MIDI_EVENT_NOTE_ON \<Rightarrow>
          Inr (event_type_code (event_type event) OR channel event
               OR push_bit 8 (param1 event) OR push_bit 16 (param2 event)
               OR push_bit 24 MEVT_SHORTMSG)
      | MIDI_EVENT_AFTERTOUCH \<Rightarrow>
          Inr (event_type_code (event_type event) OR channel event
               OR push_bit 8 (param1 event) OR push_bit 16 (param2 event)
               OR push_bit 24 MEVT_SHORTMSG)
      | MIDI_EVENT_CONTROLLER \<Rightarrow>
          Inr (event_type_code (event_type event) OR channel event
               OR push_bit 8 (param1 event) OR push_bit 16 (param2 event)
               OR push_bit 24 MEVT_SHORTMSG)
      | MIDI_EVENT_PITCH_BEND \<Rightarrow>
          Inr (event_type_code (event_type event) OR channel event
               OR push_bit 8 (param1 event) OR push_bit 16 (param2 event)
               OR push_bit 24 MEVT_SHORTMSG)
      | MIDI_EVENT_PROGRAM_CHANGE \<Rightarrow>
          Inr (event_type_code (event_type event) OR channel event
               OR push_bit 8 (param1 event) OR push_bit 16 0
               OR push_bit 24 MEVT_SHORTMSG)
      | MIDI_EVENT_CHAN_AFTERTOUCH \<Rightarrow>
          Inr (event_type_code (event_type event) OR channel event
               OR push_bit 8 (param1 event) OR push_bit 16 0
               OR push_bit 24 MEVT_SHORTMSG)
      | _ \<Rightarrow> Inr 0)"

text \<open>
  The history of the merge, kept for the proofs only: for each event written to the
  output array, the index of its track, its place in that track and the \<^verbatim>\<open>min_time\<close>
  of the round that wrote it.
\<close>

type_synonym merge_log = "(nat \<times> nat \<times> int) list"

definition open_size :: "win_midi_track_t \<Rightarrow> nat" where
  "open_size t = (case iter t of None \<Rightarrow> 0
                  | Some it \<Rightarrow> Suc (length (track it) - iter_position it))"

definition tracks_size :: "win_midi_track_t list \<Rightarrow> nat" where
  "tracks_size ts = sum_list (map open_size ts)"

text \<open>
  The loop of the merge ends: each round closes a track or consumes an event of one.
\<close>

lemma nth_Cons_shift:
  "i + 1 \<le> j \<Longrightarrow> (t # ts) ! nat (j - i) = ts ! nat (j - (i + 1))"
proof -
  assume "i + 1 \<le> j"
  then have "nat (j - i) = Suc (nat (j - (i + 1)))" by simp
  then show ?thesis by simp
qed

lemma scan_tracks_idx:
  "scan_tracks ts i m idx = (m', idx') \<Longrightarrow>
     idx' = idx \<or> (i \<le> idx' \<and> idx' < i + int (length ts) \<and> iter (ts ! nat (idx' - i)) \<noteq> None)"
proof (induction ts arbitrary: i m idx)
  case Nil
  then show ?case by simp
next
  case (Cons t ts)
  have step: "idx' = j \<or> (i + 1 \<le> idx' \<and> idx' < i + 1 + int (length ts)
                \<and> iter (ts ! nat (idx' - (i + 1))) \<noteq> None)
      \<Longrightarrow> j = idx \<or> (j = i \<and> iter t \<noteq> None)
      \<Longrightarrow> idx' = idx \<or> (i \<le> idx' \<and> idx' < i + int (length (t # ts))
                \<and> iter ((t # ts) ! nat (idx' - i)) \<noteq> None)" for j
    using nth_Cons_shift [of i idx' t ts] by auto
  show ?case
  proof (cases "iter t")
    case None
    with Cons.prems have "scan_tracks ts (i + 1) m idx = (m', idx')" by simp
    from step [OF Cons.IH [OF this]] show ?thesis by simp
  next
    case (Some it)
    let ?time = "to_int32 (absolute_time t + uint (MIDI_GetDeltaTime it))"
    show ?thesis
    proof (cases "?time < m")
      case True
      with Cons.prems Some have "scan_tracks ts (i + 1) ?time i = (m', idx')"
        by (simp add: Let_def)
      from step [OF Cons.IH [OF this]] Some show ?thesis by simp
    next
      case False
      with Cons.prems Some have "scan_tracks ts (i + 1) m idx = (m', idx')"
        by (simp add: Let_def)
      from step [OF Cons.IH [OF this]] show ?thesis by simp
    qed
  qed
qed

lemma scan_tracks_open:
  assumes "scan_tracks ts 0 m (- 1) = (m', idx')" and "idx' \<noteq> - 1"
  shows "nat idx' < length ts \<and> iter (ts ! nat idx') \<noteq> None \<and> 0 \<le> idx'"
  using scan_tracks_idx [OF assms(1)] assms(2) by auto

lemma tracks_size_update:
  "n < length ts \<Longrightarrow>
     tracks_size (ts[n := t]) + open_size (ts ! n) = tracks_size ts + open_size t"
  unfolding tracks_size_def
proof (induction ts arbitrary: n)
  case Nil
  then show ?case by simp
next
  case (Cons a ts)
  then show ?case by (cases n) auto
qed

lemma merge_close_size:
  assumes "(m, idx) = scan_tracks ts 0 INT_MAX (- 1)" and "idx \<noteq> - 1"
    and "iter (ts ! nat idx) = Some it"
  shows "tracks_size (ts[nat idx := \<lparr>iter = None, absolute_time = m\<rparr>]) < tracks_size ts"
proof -
  from scan_tracks_open [OF assms(1) [symmetric] assms(2)] have "nat idx < length ts" by simp
  from tracks_size_update [OF this, of "\<lparr>iter = None, absolute_time = m\<rparr>"] assms(3)
  show ?thesis by (simp add: open_size_def)
qed

lemma merge_next_size:
  assumes "(m, idx) = scan_tracks ts 0 INT_MAX (- 1)" and "idx \<noteq> - 1"
    and "iter (ts ! nat idx) = Some it" and "MIDI_GetNextEvent it = Some (event, it')"
  shows "tracks_size (ts[nat idx := \<lparr>iter = Some it', absolute_time = m\<rparr>]) < tracks_size ts"
proof -
  from scan_tracks_open [OF assms(1) [symmetric] assms(2)] have "nat idx < length ts" by simp
  moreover from assms(4) have "iter_position it < length (track it)"
    and "it' = it\<lparr>iter_position := iter_position it + 1\<rparr>"
    by (auto simp: MIDI_GetNextEvent_def split: if_splits)
  ultimately show ?thesis
    using tracks_size_update [of "nat idx" ts "\<lparr>iter = Some it', absolute_time = m\<rparr>"] assms(3)
    by (simp add: open_size_def)
qed

function merge_loop ::
  "win_midi_track_t list \<Rightarrow> int \<Rightarrow> win_midi_song_t \<Rightarrow> merge_log
     \<Rightarrow> error + (win_midi_song_t \<times> merge_log)" where
  "merge_loop tracks current_time song hist =
     (case scan_tracks tracks 0 INT_MAX (- 1) of (min_time, idx) \<Rightarrow>
        if idx = - 1 then Inr (song, hist)
        else
          (case iter (tracks ! nat idx) of
             None \<Rightarrow> Inl NullPointer
           | Some it \<Rightarrow>
               (case MIDI_GetNextEvent it of
                  None \<Rightarrow>
                    merge_loop (tracks[nat idx := \<lparr>iter = None, absolute_time = min_time\<rparr>])
                      current_time song hist
                | Some (event, it') \<Rightarrow>
                    (case event_data event of
                       Inl e \<Rightarrow> Inl e
                     | Inr data \<Rightarrow>
                         if data \<noteq> 0 then
                           if 0 \<le> num_events song
                              \<and> nat (num_events song) < length (native_events song)
                           then
                             merge_loop
                               (tracks[nat idx := \<lparr>iter = Some it', absolute_time = min_time\<rparr>])
                               min_time
                               (song\<lparr>native_events := (native_events song)
                                        [nat (num_events song) :=
                                           \<lparr>dwDeltaTime = word_of_int (min_time - current_time),
                                            dwStreamID = 0, dwEvent = data\<rparr>],
                                     num_events := num_events song + 1\<rparr>)
                               (hist @ [(nat idx, iter_position it, min_time)])
                           else Inl WriteOutOfBounds
                         else
                           merge_loop
                             (tracks[nat idx := \<lparr>iter = Some it', absolute_time = min_time\<rparr>])
                             current_time song hist))))"
  by pat_completeness auto
termination
  by (relation "measure (\<lambda>(tracks, current_time, song, hist). tracks_size tracks)")
     (auto intro: merge_close_size merge_next_size)

declare merge_loop.simps [simp del]

definition MIDItoStream ::
  "midi_file_t \<Rightarrow> win_midi_song_t \<Rightarrow> error + (win_midi_song_t \<times> merge_log)" where
  "MIDItoStream file song =
     merge_loop
       (map (\<lambda>i. \<lparr>iter = Some (MIDI_IterateTrack file i), absolute_time = 0\<rparr>)
            [0 ..< MIDI_NumTracks file])
       0
       (song\<lparr>native_events :=
               replicate (MIDI_NumEvents file) \<lparr>dwDeltaTime = 0, dwStreamID = 0, dwEvent = 0\<rparr>\<rparr>)
       []"

section \<open>I_WIN_UnRegisterSong\<close>

text \<open>The song is the only state it touches; the freed array is the empty one.\<close>

definition I_WIN_UnRegisterSong :: "win_midi_song_t \<Rightarrow> win_midi_song_t" where
  "I_WIN_UnRegisterSong song = song\<lparr>native_events := [], num_events := 0, position := 0\<rparr>"

section \<open>Single-precision arithmetic\<close>

text \<open>
  A finite \<^verbatim>\<open>float\<close> is the rational it denotes. An operation on floats is the exact
  operation followed by \<open>f32\<close>, the rounding of IEEE 754 binary32 to the nearest value of
  24 significant bits, ties to the even one, with the exponent of the last place not
  below \<open>- 149\<close> (the subnormal range). Values beyond the largest float do not arise from
  the volumes and factors of the player and are not modelled.
\<close>

text \<open>The exponent of the leading bit of a positive rational.\<close>

definition ilog2 :: "rat \<Rightarrow> int" where
  "ilog2 x = (if 1 \<le> x then int (floorlog 2 (nat \<lfloor>x\<rfloor>)) - 1
              else - int (floorlog 2 (nat (\<lceil>1 / x\<rceil> - 1))))"

text \<open>Rounding to the nearest integer, a tie to the even one.\<close>

definition round_even :: "rat \<Rightarrow> int" where
  "round_even q =
     (let n = \<lfloor>q\<rfloor>; r = q - of_int n
      in if r < 1 / 2 then n else if 1 / 2 < r then n + 1
         else if even n then n else n + 1)"

text \<open>The exponent of the unit in the last place.\<close>

definition ulp_exp :: "rat \<Rightarrow> int" where
  "ulp_exp x = max (ilog2 \<bar>x\<bar> - 23) (- 149)"

definition f32 :: "rat \<Rightarrow> rat" where
  "f32 x = (if x = 0 then 0
            else sgn x * of_int (round_even (\<bar>x\<bar> / 2 powi ulp_exp x)) * 2 powi ulp_exp x)"

section \<open>The state of the player\<close>

definition volume_correction :: "int list" where
  "volume_correction =
     [  0,   4,   7,  11,  13,  14,  16,  18,
       21,  22,  23,  24,  24,  24,  25,  25,
       25,  26,  26,  27,  27,  27,  28,  28,
       29,  29,  29,  30,  30,  31,  31,  32,
       32,  32,  33,  33,  34,  34,  35,  35,
       36,  37,  37,  38,  38,  39,  39,  40,
       40,  41,  42,  42,  43,  43,  44,  45,
       45,  46,  47,  47,  48,  49,  49,  50,
       51,  52,  52,  53,  54,  55,  56,  56,
       57,  58,  59,  60,  61,  62,  62,  63,
       64,  65,  66,  67,  68,  69,  70,  71,
       72,  73,  74,  75,  77,  78,  79,  80,
       81,  82,  84,  85,  86,  87,  89,  90,
       91,  92,  94,  95,  96,  98,  99, 101,
      102, 104, 105, 107, 108, 110, 112, 113,
      115, 117, 118, 120, 122, 123, 125, 127]"

definition MIDIEVENT_CHANNEL :: "32 word \<Rightarrow> 32 word" where
  "MIDIEVENT_CHANNEL x = x AND 0x0000000F"

definition MIDIEVENT_TYPE :: "32 word \<Rightarrow> 32 word" where
  "MIDIEVENT_TYPE x = x AND 0x000000F0"

definition MIDIEVENT_DATA1 :: "32 word \<Rightarrow> 32 word" where
  "MIDIEVENT_DATA1 x = drop_bit 8 (x AND 0x0000FF00)"

definition MIDIEVENT_VOLUME :: "32 word \<Rightarrow> 32 word" where
  "MIDIEVENT_VOLUME x = drop_bit 16 (x AND 0x007F0000)"

definition STREAM_MAX_EVENTS :: nat where
  "STREAM_MAX_EVENTS = 4"

definition MMSYSERR_NOERROR :: "32 word" where
  "MMSYSERR_NOERROR = 0"

text \<open>
  The calls the player makes on the MIDI stream, in their order, and what it shows to
  the user. What a call returns is not the player's to decide: each function takes the
  results of its calls as arguments.
\<close>

datatype device_call =
    MidiStreamOut "native_event_t list"
  | MidiOutShortMsg "32 word"
  | MidiStreamProperty_TimeDiv "32 word"
  | MidiStreamProperty_Tempo "32 word"
  | MidiStreamRestart

datatype diagnostic =
    MidiErrorMessageBox "32 word"
  | Printf string

text \<open>
  The globals of the module. The two arrays of fixed size are functions of the index:
  every index the source forms into \<^verbatim>\<open>channel_volume\<close> is below 16 (a loop bound or
  \<^verbatim>\<open>MIDIEVENT_CHANNEL\<close>), every index into \<^verbatim>\<open>buffer.events\<close> below 4.
\<close>

record music_state =
  song :: win_midi_song_t
  volume_factor :: rat
  channel_volume :: "nat \<Rightarrow> int"
  buffer_events :: "nat \<Rightarrow> native_event_t"
  buffer_num_events :: int
  hBufferReturnEvent :: bool
  hExitEvent :: bool
  device :: "device_call list"
  shown :: "diagnostic list"

section \<open>FillBuffer and StreamOut\<close>

text \<open>The conversion of a float to \<^verbatim>\<open>int\<close> drops the fraction.\<close>

definition float_to_int :: "rat \<Rightarrow> int" where
  "float_to_int x = (if 0 \<le> x then \<lfloor>x\<rfloor> else \<lceil>x\<rceil>)"

text \<open>\<^verbatim>\<open>int(float(volume) * volume_factor)\<close>\<close>

definition scaled_volume :: "rat \<Rightarrow> int \<Rightarrow> int" where
  "scaled_volume factor volume = float_to_int (f32 (f32 (of_int volume) * factor))"

text \<open>A read of the table, which has 128 entries.\<close>

definition volume_correction_at :: "int \<Rightarrow> error + int" where
  "volume_correction_at i =
     (if 0 \<le> i \<and> i < 128 then Inr (volume_correction ! nat i) else Inl TableOutOfBounds)"

text \<open>The body of the loop of \<^verbatim>\<open>FillBuffer\<close> from the copy of the event on.\<close>

definition fill_event :: "nat \<Rightarrow> music_state \<Rightarrow> error + music_state" where
  "fill_event i st =
     (if 0 \<le> position (song st) \<and> nat (position (song st)) < length (native_events (song st))
      then
        (let event = native_events (song st) ! nat (position (song st)) in
         if MIDIEVENT_TYPE (dwEvent event) = event_type_code MIDI_EVENT_CONTROLLER
            \<and> MIDIEVENT_DATA1 (dwEvent event) = MIDI_CONTROLLER_MAIN_VOLUME
         then
           (let volume = uint (MIDIEVENT_VOLUME (dwEvent event)) in
            case volume_correction_at (scaled_volume (volume_factor st) volume) of
              Inl e \<Rightarrow> Inl e
            | Inr v \<Rightarrow>
                Inr (st\<lparr>channel_volume :=
                           (channel_volume st)
                             (unat (MIDIEVENT_CHANNEL (dwEvent event)) := volume),
                         buffer_events :=
                           (buffer_events st)
                             (i := event\<lparr>dwEvent :=
                                    (dwEvent event AND 0xFF00FFFF)
                                      OR push_bit 16 (word_of_int v AND 0x7F)\<rparr>),
                         song := (song st)\<lparr>position := position (song st) + 1\<rparr>\<rparr>))
         else
           Inr (st\<lparr>buffer_events := (buffer_events st)(i := event),
                    song := (song st)\<lparr>position := position (song st) + 1\<rparr>\<rparr>))
      else Inl ReadOutOfBounds)"

function FillBuffer_loop :: "nat \<Rightarrow> music_state \<Rightarrow> error + music_state" where
  "FillBuffer_loop i st =
     (if i < STREAM_MAX_EVENTS then
        (if num_events (song st) \<le> position (song st) then
           (if looping (song st) then
              (case fill_event i (st\<lparr>song := (song st)\<lparr>position := 0\<rparr>\<rparr>) of
                 Inl e \<Rightarrow> Inl e
               | Inr st' \<Rightarrow> FillBuffer_loop (i + 1) st')
            else Inr (st\<lparr>buffer_num_events := int i\<rparr>))
         else
           (case fill_event i st of
              Inl e \<Rightarrow> Inl e
            | Inr st' \<Rightarrow> FillBuffer_loop (i + 1) st'))
      else Inr (st\<lparr>buffer_num_events := int i\<rparr>))"
  by pat_completeness auto
termination
  by (relation "measure (\<lambda>(i, st). STREAM_MAX_EVENTS - i)") auto

declare FillBuffer_loop.simps [simp del]

definition FillBuffer :: "music_state \<Rightarrow> error + music_state" where
  "FillBuffer st = FillBuffer_loop 0 st"

text \<open>The window a fill leaves: the slots it has filled.\<close>

definition window :: "music_state \<Rightarrow> native_event_t list" where
  "window st = map (buffer_events st) [0 ..< nat (buffer_num_events st)]"

definition StreamOut :: "32 word \<Rightarrow> music_state \<Rightarrow> music_state" where
  "StreamOut mmr st =
     (if buffer_num_events st = 0 then st
      else
        (let st' = st\<lparr>device := device st @ [MidiStreamOut (window st)]\<rparr>
         in if mmr \<noteq> MMSYSERR_NOERROR
            then st'\<lparr>shown := shown st' @ [MidiErrorMessageBox mmr]\<rparr>
            else st'))"

section \<open>PlayerProc\<close>

text \<open>
  \<^verbatim>\<open>WaitForMultipleObjects\<close> with \<^verbatim>\<open>bWaitAll = FALSE\<close> on the two events, buffer returned
  first: by its contract it is satisfied by the signalled object of smallest index;
  both events are auto-reset, so the one that satisfies the wait is reset. With neither
  signalled the thread waits.
\<close>

definition WaitForMultipleObjects :: "music_state \<Rightarrow> (nat \<times> music_state) option" where
  "WaitForMultipleObjects st =
     (if hBufferReturnEvent st then Some (0, st\<lparr>hBufferReturnEvent := False\<rparr>)
      else if hExitEvent st then Some (1, st\<lparr>hExitEvent := False\<rparr>)
      else None)"

datatype 'a progress = Waiting | Running 'a | Returned 'a

text \<open>One round of the loop of \<^verbatim>\<open>PlayerProc\<close>; \<open>mmr\<close> is what \<^verbatim>\<open>midiStreamOut\<close> returns.\<close>

definition PlayerProc_round :: "32 word \<Rightarrow> music_state \<Rightarrow> error + music_state progress" where
  "PlayerProc_round mmr st =
     (case WaitForMultipleObjects st of
        None \<Rightarrow> Inr Waiting
      | Some (n, st') \<Rightarrow>
          if n = 0 then
            (case FillBuffer st' of
               Inl e \<Rightarrow> Inl e
             | Inr st'' \<Rightarrow> Inr (Running (StreamOut mmr st'')))
          else Inr (Returned st'))"

section \<open>I_WIN_SetMusicVolume\<close>

definition MIDI_MINVOL :: rat where
  "MIDI_MINVOL = f32 (20 / 100)"

definition MIDI_MAXVOL :: rat where
  "MIDI_MAXVOL = f32 (75 / 100)"

text \<open>
  \<^verbatim>\<open>SND_MAXVOLUME\<close> is declared outside the sources at hand: it is the first argument of
  what depends on it.
\<close>

definition MIDI_INCREMENT :: "int \<Rightarrow> rat" where
  "MIDI_INCREMENT snd_maxvolume =
     f32 (f32 (MIDI_MAXVOL - MIDI_MINVOL) / f32 (of_int (snd_maxvolume - 1)))"

definition new_volume_factor :: "int \<Rightarrow> int \<Rightarrow> rat" where
  "new_volume_factor snd_maxvolume volume =
     (if volume \<noteq> 0
      then f32 (MIDI_MINVOL + f32 (MIDI_INCREMENT snd_maxvolume * f32 (of_int (volume - 1))))
      else 0)"

definition volume_message :: "nat \<Rightarrow> int \<Rightarrow> 32 word" where
  "volume_message i v =
     event_type_code MIDI_EVENT_CONTROLLER OR of_nat i
       OR push_bit 8 MIDI_CONTROLLER_MAIN_VOLUME OR push_bit 16 (word_of_int v)"

text \<open>The loop over the channels, the channels still to do as a list.\<close>

primrec send_volumes :: "nat list \<Rightarrow> music_state \<Rightarrow> error + music_state" where
  "send_volumes [] st = Inr st"
| "send_volumes (i # rest) st =
     (case volume_correction_at (scaled_volume (volume_factor st) (channel_volume st i)) of
        Inl e \<Rightarrow> Inl e
      | Inr v \<Rightarrow>
          send_volumes rest (st\<lparr>device := device st @ [MidiOutShortMsg (volume_message i v)]\<rparr>))"

definition I_WIN_SetMusicVolume :: "int \<Rightarrow> int \<Rightarrow> music_state \<Rightarrow> error + music_state" where
  "I_WIN_SetMusicVolume snd_maxvolume volume st =
     send_volumes [0 ..< MIDI_CHANNELS_PER_TRACK]
       (st\<lparr>volume_factor := new_volume_factor snd_maxvolume volume\<rparr>)"

section \<open>I_WIN_RegisterSong\<close>

text \<open>
  \<open>file\<close> is what \<^verbatim>\<open>MIDI_LoadFile\<close> makes of the bytes (\<open>None\<close>: they do not parse), the
  three results those of the two \<^verbatim>\<open>midiStreamProperty\<close> calls and of \<^verbatim>\<open>midiStreamOut\<close>.
\<close>

definition I_WIN_RegisterSong ::
  "midi_file_t option \<Rightarrow> 32 word \<Rightarrow> 32 word \<Rightarrow> 32 word \<Rightarrow> music_state
     \<Rightarrow> error + bool \<times> music_state" where
  "I_WIN_RegisterSong file mmr_timediv mmr_tempo mmr_out st =
     (case file of
        None \<Rightarrow>
          Inr (False, st\<lparr>shown := shown st @ [Printf ''I_WIN_RegisterSong: Failed to load MID.'']\<rparr>)
      | Some f \<Rightarrow>
          (let st1 = st\<lparr>channel_volume :=
                          (\<lambda>i. if i < MIDI_CHANNELS_PER_TRACK then 100 else channel_volume st i)\<rparr>;
               st2 = st1\<lparr>device := device st1 @ [MidiStreamProperty_TimeDiv (time_division f)]\<rparr>
           in if mmr_timediv \<noteq> MMSYSERR_NOERROR
              then Inr (False, st2\<lparr>shown := shown st2 @ [MidiErrorMessageBox mmr_timediv]\<rparr>)
              else
                (let st3 = st2\<lparr>device := device st2 @ [MidiStreamProperty_Tempo 500000]\<rparr>
                 in if mmr_tempo \<noteq> MMSYSERR_NOERROR
                    then Inr (False, st3\<lparr>shown := shown st3 @ [MidiErrorMessageBox mmr_tempo]\<rparr>)
                    else
                      (case MIDItoStream f (song st3) of
                         Inl e \<Rightarrow> Inl e
                       | Inr (song', hist) \<Rightarrow>
                           (case FillBuffer (st3\<lparr>song := song', hBufferReturnEvent := False,
                                                  hExitEvent := False\<rparr>) of
                              Inl e \<Rightarrow> Inl e
                            | Inr st4 \<Rightarrow> Inr (True, StreamOut mmr_out st4))))))"

section \<open>I_WIN_PlaySong\<close>

text \<open>
  It records the looping flag and restarts the stream; the thread it creates runs the
  rounds of \<^verbatim>\<open>PlayerProc\<close>. \<open>mmr\<close> is what \<^verbatim>\<open>midiStreamRestart\<close> returns.
\<close>

definition I_WIN_PlaySong :: "bool \<Rightarrow> 32 word \<Rightarrow> music_state \<Rightarrow> music_state" where
  "I_WIN_PlaySong loop mmr st =
     (let st' = st\<lparr>song := (song st)\<lparr>looping := loop\<rparr>,
                   device := device st @ [MidiStreamRestart]\<rparr>
      in if mmr \<noteq> MMSYSERR_NOERROR
         then st'\<lparr>shown := shown st' @ [MidiErrorMessageBox mmr]\<rparr>
         else st')"

section \<open>The program as it starts\<close>

text \<open>The song before any registration, as the zero-initialised global.\<close>

definition empty_song :: win_midi_song_t where
  "empty_song = \<lparr>native_events = [], num_events = 0, position = 0, looping = False\<rparr>"

text \<open>The globals as the program starts.\<close>

definition initial_state :: music_state where
  "initial_state =
     \<lparr>song = empty_song, volume_factor = 1, channel_volume = (\<lambda>i. 0),
      buffer_events = (\<lambda>i. \<lparr>dwDeltaTime = 0, dwStreamID = 0, dwEvent = 0\<rparr>),
      buffer_num_events = 0, hBufferReturnEvent = False, hExitEvent = False,
      device = [], shown = []\<rparr>"

chapter \<open>Notions of the claims\<close>

section \<open>Of the merge\<close>

text \<open>
  The events of the open tracks that the merge has still to consume, and the room the
  output array has for them.
\<close>

definition remaining :: "win_midi_track_t \<Rightarrow> nat" where
  "remaining t = (case iter t of None \<Rightarrow> 0
                  | Some it \<Rightarrow> length (track it) - iter_position it)"

definition tracks_remaining :: "win_midi_track_t list \<Rightarrow> nat" where
  "tracks_remaining ts = sum_list (map remaining ts)"

definition room :: "win_midi_track_t list \<Rightarrow> win_midi_song_t \<Rightarrow> bool" where
  "room ts sg \<longleftrightarrow>
     0 \<le> num_events sg
     \<and> nat (num_events sg) + tracks_remaining ts \<le> length (native_events sg)"

definition grown :: "win_midi_song_t \<Rightarrow> win_midi_song_t \<Rightarrow> bool" where
  "grown sg song' \<longleftrightarrow>
     length (native_events song') = length (native_events sg)
     \<and> num_events sg \<le> num_events song'
     \<and> nat (num_events song') \<le> length (native_events song')"

text \<open>
  The time the scan computes for a track. A closed track is skipped; since only a time
  below \<^verbatim>\<open>INT_MAX\<close> is ever taken, \<^verbatim>\<open>INT_MAX\<close> stands for it.
\<close>

definition candidate :: "win_midi_track_t \<Rightarrow> int" where
  "candidate t =
     (case iter t of
        None \<Rightarrow> INT_MAX
      | Some it \<Rightarrow> to_int32 (absolute_time t + uint (MIDI_GetDeltaTime it)))"

text \<open>
  The time at which the first \<open>n\<close> events of a track have passed, in the integers: the
  absolute time of event \<open>p\<close> of the track is \<open>track_time evs (Suc p)\<close>.
\<close>

definition track_time :: "midi_event_t list \<Rightarrow> nat \<Rightarrow> int" where
  "track_time evs n = sum_list (map (\<lambda>e. uint (delta_time e)) (take n evs))"

text \<open>The absolute time, in its source track, of the event an entry of the history names.\<close>

definition source_time :: "midi_file_t \<Rightarrow> nat \<times> nat \<times> int \<Rightarrow> int" where
  "source_time file h = track_time (file_tracks file ! fst h) (Suc (fst (snd h)))"

definition source_event :: "midi_file_t \<Rightarrow> nat \<times> nat \<times> int \<Rightarrow> midi_event_t" where
  "source_event file h = file_tracks file ! fst h ! fst (snd h)"

text \<open>The times of a file fit an \<^verbatim>\<open>int\<close>: no track runs beyond \<^verbatim>\<open>INT_MAX\<close> ticks.\<close>

definition times_fit :: "midi_file_t \<Rightarrow> bool" where
  "times_fit file = list_all (\<lambda>evs. track_time evs (length evs) \<le> INT_MAX) (file_tracks file)"

definition track_inv :: "midi_event_t list \<Rightarrow> win_midi_track_t \<Rightarrow> bool" where
  "track_inv evs t =
     (case iter t of
        None \<Rightarrow> True
      | Some it \<Rightarrow> track it = evs \<and> iter_position it \<le> length evs
                   \<and> absolute_time t = track_time evs (iter_position it))"

definition merge_inv :: "midi_event_t list list \<Rightarrow> win_midi_track_t list \<Rightarrow> int \<Rightarrow> bool" where
  "merge_inv fs ts ct \<longleftrightarrow>
     length ts = length fs
     \<and> (\<forall>j < length fs. track_inv (fs ! j) (ts ! j)
                        \<and> track_time (fs ! j) (length (fs ! j)) \<le> INT_MAX)
     \<and> 0 \<le> ct \<and> (\<forall>j < length ts. ct \<le> candidate (ts ! j))"

text \<open>
  The entries of the output array from index \<open>n\<close> on are those the history \<open>hs\<close> names,
  in its order, the first measured from the time \<open>prev\<close>: each names an event of a
  source track that has a packed word, stands at that event's own absolute time, not
  before its predecessor, and holds the difference to it.
\<close>

fun emitted ::
  "midi_event_t list list \<Rightarrow> native_event_t list \<Rightarrow> nat \<Rightarrow> int \<Rightarrow> merge_log \<Rightarrow> bool" where
  "emitted fs evs n prev [] = True"
| "emitted fs evs n prev (h # hs) =
     (n < length evs \<and> fst h < length fs \<and> fst (snd h) < length (fs ! fst h)
      \<and> snd (snd h) = track_time (fs ! fst h) (Suc (fst (snd h)))
      \<and> prev \<le> snd (snd h)
      \<and> uint (dwDeltaTime (evs ! n)) = snd (snd h) - prev
      \<and> dwStreamID (evs ! n) = 0
      \<and> event_data (fs ! fst h ! fst (snd h)) = Inr (dwEvent (evs ! n))
      \<and> dwEvent (evs ! n) \<noteq> 0
      \<and> emitted fs evs (Suc n) (snd (snd h)) hs)"

text \<open>
  Every track ends before \<^verbatim>\<open>INT_MAX\<close> ticks. The scan starts from \<^verbatim>\<open>INT_MAX\<close> and takes a
  track only at a time below it, so a track is never taken at \<^verbatim>\<open>INT_MAX\<close> itself.
\<close>

definition times_below :: "midi_file_t \<Rightarrow> bool" where
  "times_below file = list_all (\<lambda>evs. track_time evs (length evs) < INT_MAX) (file_tracks file)"

text \<open>An event the merge writes: the switch gives it a packed word other than 0.\<close>

definition has_word :: "midi_event_t \<Rightarrow> bool" where
  "has_word e = (case event_data e of Inl x \<Rightarrow> False | Inr d \<Rightarrow> d \<noteq> 0)"

text \<open>
  An event the switch can read: a tempo event has the three bytes of data it reads. A
  file all of whose events are such.
\<close>

definition readable :: "midi_event_t \<Rightarrow> bool" where
  "readable e = (case event_data e of Inl x \<Rightarrow> False | Inr d \<Rightarrow> True)"

definition all_readable :: "midi_file_t \<Rightarrow> bool" where
  "all_readable file = list_all (list_all readable) (file_tracks file)"

text \<open>
  The order of the output: by the absolute time in the source track; at equal times by
  the index of the track; within a track by the place in it.
\<close>

definition before :: "midi_file_t \<Rightarrow> nat \<times> nat \<times> int \<Rightarrow> nat \<times> nat \<times> int \<Rightarrow> bool" where
  "before file h h' \<longleftrightarrow>
     source_time file h < source_time file h'
     \<or> source_time file h = source_time file h'
       \<and> (fst h < fst h' \<or> fst h = fst h' \<and> fst (snd h) < fst (snd h'))"

text \<open>
  The same order on the times the history records, and what the rounds keep of it: an
  entry of the history is not after the current time, every track of lower index has a
  candidate time beyond it, and its own track has moved past its place.
\<close>

definition earlier :: "nat \<times> nat \<times> int \<Rightarrow> nat \<times> nat \<times> int \<Rightarrow> bool" where
  "earlier h h' \<longleftrightarrow>
     snd (snd h) < snd (snd h')
     \<or> snd (snd h) = snd (snd h')
       \<and> (fst h < fst h' \<or> fst h = fst h' \<and> fst (snd h) < fst (snd h'))"

definition passed :: "win_midi_track_t list \<Rightarrow> int \<Rightarrow> nat \<times> nat \<times> int \<Rightarrow> bool" where
  "passed ts ct h \<longleftrightarrow>
     snd (snd h) \<le> ct
     \<and> (\<forall>j < length ts.
           (j < fst h \<longrightarrow> snd (snd h) < candidate (ts ! j))
           \<and> (j = fst h \<longrightarrow>
                (case iter (ts ! j) of None \<Rightarrow> True
                 | Some it \<Rightarrow> fst (snd h) < iter_position it)))"

definition order_inv :: "win_midi_track_t list \<Rightarrow> int \<Rightarrow> merge_log \<Rightarrow> bool" where
  "order_inv ts ct hist \<longleftrightarrow>
     (\<forall>h \<in> set hist. passed ts ct h)
     \<and> (\<forall>l < length hist. \<forall>k < l. earlier (hist ! k) (hist ! l))"

text \<open>
  Nothing is left out: every event with a packed word that its track has moved past, or
  whose track is closed, is in the history.
\<close>

definition covered :: "midi_event_t list list \<Rightarrow> win_midi_track_t list \<Rightarrow> merge_log \<Rightarrow> bool" where
  "covered fs ts hist \<longleftrightarrow>
     (\<forall>j < length fs. \<forall>p < length (fs ! j).
         (case iter (ts ! j) of None \<Rightarrow> True | Some it \<Rightarrow> p < iter_position it) \<longrightarrow>
         has_word (fs ! j ! p) \<longrightarrow> (\<exists>m. (j, p, m) \<in> set hist))"

section \<open>Of the playback\<close>

text \<open>The buffer-returned branch of \<^verbatim>\<open>PlayerProc\<close>, and a number of them in a row.\<close>

definition fill_and_stream :: "32 word \<Rightarrow> music_state \<Rightarrow> error + music_state" where
  "fill_and_stream mmr st =
     (case FillBuffer st of Inl e \<Rightarrow> Inl e | Inr st' \<Rightarrow> Inr (StreamOut mmr st'))"

primrec fill_and_stream_all :: "32 word list \<Rightarrow> music_state \<Rightarrow> error + music_state" where
  "fill_and_stream_all [] st = Inr st"
| "fill_and_stream_all (mmr # rest) st =
     (case fill_and_stream mmr st of Inl e \<Rightarrow> Inl e | Inr st' \<Rightarrow> fill_and_stream_all rest st')"

text \<open>
  The scale factor is the initial 1.0, the 0.0 of muting or a value from \<^verbatim>\<open>MIDI_MINVOL\<close>
  to \<^verbatim>\<open>MIDI_MAXVOL\<close>, and each channel has a volume from 0 to 127 on record.
\<close>

definition volume_ok :: "music_state \<Rightarrow> bool" where
  "volume_ok st \<longleftrightarrow>
     (volume_factor st = 1 \<or> volume_factor st = 0
      \<or> MIDI_MINVOL \<le> volume_factor st \<and> volume_factor st \<le> MIDI_MAXVOL)
     \<and> list_all (\<lambda>i. 0 \<le> channel_volume st i \<and> channel_volume st i \<le> 127)
          [0 ..< MIDI_CHANNELS_PER_TRACK]"

text \<open>
  The test \<^verbatim>\<open>FillBuffer\<close> makes of an event before it replaces its volume: on the
  type bits and the first data byte of the packed word, not on its tag.
\<close>

definition volume_test :: "native_event_t \<Rightarrow> bool" where
  "volume_test ev \<longleftrightarrow>
     MIDIEVENT_TYPE (dwEvent ev) = event_type_code MIDI_EVENT_CONTROLLER
     \<and> MIDIEVENT_DATA1 (dwEvent ev) = MIDI_CONTROLLER_MAIN_VOLUME"

text \<open>
  A main volume event: a short message, as its tag says, that sets controller 7. An
  entry with another tag that passes the test all the same, as the tempo entry
  \<open>0x010707B0\<close> does, is taken for one by mistake.
\<close>

definition is_main_volume :: "native_event_t \<Rightarrow> bool" where
  "is_main_volume ev \<longleftrightarrow> drop_bit 24 (dwEvent ev) = MEVT_SHORTMSG \<and> volume_test ev"

definition mistaken :: "native_event_t \<Rightarrow> bool" where
  "mistaken ev \<longleftrightarrow> volume_test ev \<and> drop_bit 24 (dwEvent ev) \<noteq> MEVT_SHORTMSG"

text \<open>What \<^verbatim>\<open>FillBuffer\<close> puts into a slot of the window for an event of the song.\<close>

definition filled :: "rat \<Rightarrow> native_event_t \<Rightarrow> native_event_t" where
  "filled factor ev =
     (if volume_test ev
      then ev\<lparr>dwEvent :=
                (dwEvent ev AND 0xFF00FFFF)
                  OR push_bit 16
                       (word_of_int
                          (volume_correction
                             ! nat (scaled_volume factor (uint (MIDIEVENT_VOLUME (dwEvent ev)))))
                        AND 0x7F)\<rparr>
      else ev)"

text \<open>
  An event of the song as it is to stand in the window: a main volume event has its
  volume replaced by the corrected one, every other event is the event of the song.
\<close>

definition streamed :: "rat \<Rightarrow> native_event_t \<Rightarrow> native_event_t" where
  "streamed factor ev =
     (if is_main_volume ev
      then ev\<lparr>dwEvent :=
                (dwEvent ev AND 0xFF00FFFF)
                  OR push_bit 16
                       (word_of_int
                          (volume_correction
                             ! nat (scaled_volume factor (uint (MIDIEVENT_VOLUME (dwEvent ev)))))
                        AND 0x7F)\<rparr>
      else ev)"

text \<open>A number of fills in a row, and the windows they leave, one after the other.\<close>

primrec fills :: "nat \<Rightarrow> music_state \<Rightarrow> error + native_event_t list \<times> music_state" where
  "fills 0 st = Inr ([], st)"
| "fills (Suc n) st =
     (case FillBuffer st of
        Inl e \<Rightarrow> Inl e
      | Inr st1 \<Rightarrow>
          (case fills n st1 of
             Inl e \<Rightarrow> Inl e
           | Inr (evs, st2) \<Rightarrow> Inr (window st1 @ evs, st2)))"

text \<open>
  A song of at least one event that loops, its cursor within the song or at its end, all
  its events within the array, and a scale factor from 0 to 1.
\<close>

definition loop_ready :: "music_state \<Rightarrow> bool" where
  "loop_ready st \<longleftrightarrow>
     looping (song st) \<and> 1 \<le> num_events (song st)
     \<and> nat (num_events (song st)) \<le> length (native_events (song st))
     \<and> 0 \<le> position (song st) \<and> position (song st) \<le> num_events (song st)
     \<and> 0 \<le> volume_factor st \<and> volume_factor st \<le> 1"

text \<open>
  Event \<open>j\<close> of the endless repetition of the song that begins at the cursor, and what
  \<^verbatim>\<open>FillBuffer\<close> puts into a slot for it.
\<close>

definition cycled :: "music_state \<Rightarrow> nat \<Rightarrow> native_event_t" where
  "cycled st j =
     native_events (song st) ! ((nat (position (song st)) + j) mod nat (num_events (song st)))"

definition refilled :: "music_state \<Rightarrow> nat \<Rightarrow> native_event_t" where
  "refilled st j = filled (volume_factor st) (cycled st j)"

text \<open>Two states play the same song at the same scale.\<close>

definition same_song :: "music_state \<Rightarrow> music_state \<Rightarrow> bool" where
  "same_song st st' \<longleftrightarrow>
     native_events (song st') = native_events (song st)
     \<and> num_events (song st') = num_events (song st)
     \<and> looping (song st') = looping (song st)
     \<and> volume_factor st' = volume_factor st"

section \<open>Files and states to run the program on\<close>

definition note_on :: "32 word \<Rightarrow> 32 word \<Rightarrow> midi_event_t" where
  "note_on d key = \<lparr>delta_time = d, event_type = MIDI_EVENT_NOTE_ON, channel = 0,
                    param1 = key, param2 = 100, meta_type = 0, meta_data = []\<rparr>"

definition text_meta :: "32 word \<Rightarrow> midi_event_t" where
  "text_meta d = \<lparr>delta_time = d, event_type = MIDI_EVENT_META, channel = 0,
                  param1 = 0, param2 = 0, meta_type = 0x01, meta_data = [0x41]\<rparr>"

text \<open>Track A at the absolute times 0, 100, 100 and track B at 50, 100.\<close>

definition example_file :: midi_file_t where
  "example_file =
     \<lparr>file_tracks = [[note_on 0 60, note_on 100 61, note_on 0 62],
                     [note_on 50 70, note_on 50 71]],
      time_division = 96\<rparr>"

text \<open>What the merge makes of that file.\<close>

definition example_song :: win_midi_song_t where
  "example_song =
     \<lparr>native_events =
        [\<lparr>dwDeltaTime = 0, dwStreamID = 0, dwEvent = 0x643C90\<rparr>,
         \<lparr>dwDeltaTime = 50, dwStreamID = 0, dwEvent = 0x644690\<rparr>,
         \<lparr>dwDeltaTime = 50, dwStreamID = 0, dwEvent = 0x643D90\<rparr>,
         \<lparr>dwDeltaTime = 0, dwStreamID = 0, dwEvent = 0x643E90\<rparr>,
         \<lparr>dwDeltaTime = 0, dwStreamID = 0, dwEvent = 0x644790\<rparr>],
      num_events = 5, position = 0, looping = False\<rparr>"

definition example_hist :: merge_log where
  "example_hist = [(0, 0, 0), (1, 0, 50), (0, 1, 100), (0, 2, 100), (1, 1, 100)]"

text \<open>Track A with a text event, which has no packed word, between its two notes.\<close>

definition dropping_file :: midi_file_t where
  "dropping_file =
     \<lparr>file_tracks = [[note_on 0 60, text_meta 30, note_on 70 61],
                     [note_on 50 70, text_meta 20]],
      time_division = 96\<rparr>"

text \<open>What the merge makes of \<open>dropping_file\<close>: three entries for five events.\<close>

definition dropping_song :: win_midi_song_t where
  "dropping_song =
     \<lparr>native_events =
        [\<lparr>dwDeltaTime = 0, dwStreamID = 0, dwEvent = 0x643C90\<rparr>,
         \<lparr>dwDeltaTime = 50, dwStreamID = 0, dwEvent = 0x644690\<rparr>,
         \<lparr>dwDeltaTime = 50, dwStreamID = 0, dwEvent = 0x643D90\<rparr>,
         \<lparr>dwDeltaTime = 0, dwStreamID = 0, dwEvent = 0\<rparr>,
         \<lparr>dwDeltaTime = 0, dwStreamID = 0, dwEvent = 0\<rparr>],
      num_events = 3, position = 0, looping = False\<rparr>"

definition dropping_hist :: merge_log where
  "dropping_hist = [(0, 0, 0), (1, 0, 50), (0, 2, 100)]"

text \<open>
  Two tracks of nine events each, every delta time at most the largest a variable-length
  quantity of four bytes holds: the ninth event of the first track stands at
  \<open>9 * (2 ^ 28 - 1)\<close>, beyond \<^verbatim>\<open>INT_MAX\<close>.
\<close>

definition overflow_file :: midi_file_t where
  "overflow_file =
     \<lparr>file_tracks = [replicate 9 (note_on 0x0FFFFFFF 60),
                     replicate 8 (note_on 0x0FFFFFFF 70) @ [note_on 0 71]],
      time_division = 96\<rparr>"

text \<open>
  Two tracks of nine events each that end at \<^verbatim>\<open>INT_MAX\<close> exactly:
  \<open>8 * (2 ^ 28 - 1) + 7 = 2 ^ 31 - 1\<close>.
\<close>

definition boundary_file :: midi_file_t where
  "boundary_file =
     \<lparr>file_tracks = [replicate 8 (note_on 0x0FFFFFFF 60) @ [note_on 7 61],
                     replicate 8 (note_on 0x0FFFFFFF 70) @ [note_on 7 71]],
      time_division = 96\<rparr>"

text \<open>A main volume event of 64 on channel 0, then a note.\<close>

definition volume_file :: midi_file_t where
  "volume_file =
     \<lparr>file_tracks =
        [[\<lparr>delta_time = 0, event_type = MIDI_EVENT_CONTROLLER, channel = 0,
           param1 = MIDI_CONTROLLER_MAIN_VOLUME, param2 = 64, meta_type = 0, meta_data = []\<rparr>,
          note_on 10 60]],
      time_division = 96\<rparr>"

text \<open>The song of \<open>example_file\<close> played to its end, looping off.\<close>

definition ended_state :: music_state where
  "ended_state =
     initial_state
       \<lparr>song := \<lparr>native_events =
                   [\<lparr>dwDeltaTime = 0, dwStreamID = 0, dwEvent = 0x643C90\<rparr>,
                    \<lparr>dwDeltaTime = 50, dwStreamID = 0, dwEvent = 0x644690\<rparr>,
                    \<lparr>dwDeltaTime = 50, dwStreamID = 0, dwEvent = 0x643D90\<rparr>,
                    \<lparr>dwDeltaTime = 0, dwStreamID = 0, dwEvent = 0x643E90\<rparr>,
                    \<lparr>dwDeltaTime = 0, dwStreamID = 0, dwEvent = 0x644790\<rparr>],
                 num_events = 5, position = 5, looping = False\<rparr>,
        buffer_num_events := 1\<rparr>"

text \<open>The state after the song of \<open>example_file\<close> is registered, with signals raised.\<close>

definition signalled_state :: "bool \<Rightarrow> bool \<Rightarrow> music_state" where
  "signalled_state buffer_returned exit_requested =
     (case I_WIN_RegisterSong (Some example_file) 0 0 0 initial_state of
        Inr (ok, st) \<Rightarrow> st
      | Inl e \<Rightarrow> initial_state)
       \<lparr>hBufferReturnEvent := buffer_returned, hExitEvent := exit_requested\<rparr>"

text \<open>The program after a file is registered at its start, every device call succeeding.\<close>

definition registered :: "midi_file_t \<Rightarrow> music_state" where
  "registered f =
     (case I_WIN_RegisterSong (Some f) 0 0 0 initial_state of
        Inr (ok, st) \<Rightarrow> st
      | Inl e \<Rightarrow> initial_state)"

text \<open>A tempo event and a main volume event.\<close>

definition set_tempo :: "32 word \<Rightarrow> 8 word list \<Rightarrow> midi_event_t" where
  "set_tempo d bytes = \<lparr>delta_time = d, event_type = MIDI_EVENT_META, channel = 0,
                         param1 = 0, param2 = 0, meta_type = MIDI_META_SET_TEMPO,
                         meta_data = bytes\<rparr>"

definition main_volume :: "32 word \<Rightarrow> 32 word \<Rightarrow> 32 word \<Rightarrow> midi_event_t" where
  "main_volume d ch v = \<lparr>delta_time = d, event_type = MIDI_EVENT_CONTROLLER, channel = ch,
                         param1 = MIDI_CONTROLLER_MAIN_VOLUME, param2 = v,
                         meta_type = 0, meta_data = []\<rparr>"

text \<open>
  A tempo of 500000 microseconds a quarter note, the volume 64 for channel 1, three
  notes; and the song of that file as it plays, looping.
\<close>

definition mixed_file :: midi_file_t where
  "mixed_file =
     \<lparr>file_tracks = [[set_tempo 0 [0x07, 0xA1, 0x20], main_volume 0 1 64,
                      note_on 10 60, note_on 10 62, note_on 10 64]],
      time_division = 96\<rparr>"

definition looping_state :: music_state where
  "looping_state = I_WIN_PlaySong True 0 (registered mixed_file)"

text \<open>
  A tempo of 460720 microseconds a quarter note, whose three bytes are \<open>07 07 B0\<close>, and
  a note.
\<close>

definition tempo_file :: midi_file_t where
  "tempo_file =
     \<lparr>file_tracks = [[set_tempo 0 [0x07, 0x07, 0xB0], note_on 10 60]],
      time_division = 96\<rparr>"

text \<open>The music volume set to 8 of 15 before any song is registered.\<close>

definition quiet_state :: music_state where
  "quiet_state =
     (case I_WIN_SetMusicVolume 15 8 initial_state of
        Inr st \<Rightarrow> st
      | Inl e \<Rightarrow> initial_state)"

text \<open>
  Then \<open>volume_file\<close> is registered and played, looping: the volume 64 is on record for
  channel 0 and 100 for the others, the window holds the two events of the song and the
  cursor is at its end.
\<close>

definition playing_state :: music_state where
  "playing_state =
     I_WIN_PlaySong True 0
       (case I_WIN_RegisterSong (Some volume_file) 0 0 0 quiet_state of
          Inr (ok, st) \<Rightarrow> st
        | Inl e \<Rightarrow> initial_state)"

text \<open>
  What the claims look at in a state: the song, the scale factor, the volumes on record,
  the number of events in the buffer and the window.
\<close>

definition snapshot ::
  "music_state \<Rightarrow> win_midi_song_t \<times> rat \<times> int list \<times> int \<times> native_event_t list" where
  "snapshot st =
     (song st, volume_factor st, map (channel_volume st) [0 ..< MIDI_CHANNELS_PER_TRACK],
      buffer_num_events st, window st)"

chapter \<open>Proofs\<close>

section \<open>The rounds of the merge\<close>

lemma merge_loop_induct [case_names Done Null Close ReadFail Emit Full Drop]:
  assumes Done: "\<And>tracks ct sg hist m.
      scan_tracks tracks 0 INT_MAX (- 1) = (m, - 1) \<Longrightarrow>
      merge_loop tracks ct sg hist = Inr (sg, hist) \<Longrightarrow> P tracks ct sg hist"
    and Null: "\<And>tracks ct sg hist m idx.
      scan_tracks tracks 0 INT_MAX (- 1) = (m, idx) \<Longrightarrow> idx \<noteq> - 1 \<Longrightarrow>
      iter (tracks ! nat idx) = None \<Longrightarrow> P tracks ct sg hist"
    and Close: "\<And>tracks ct sg hist m idx it.
      scan_tracks tracks 0 INT_MAX (- 1) = (m, idx) \<Longrightarrow> idx \<noteq> - 1 \<Longrightarrow>
      iter (tracks ! nat idx) = Some it \<Longrightarrow> MIDI_GetNextEvent it = None \<Longrightarrow>
      merge_loop tracks ct sg hist =
        merge_loop (tracks[nat idx := \<lparr>iter = None, absolute_time = m\<rparr>]) ct sg hist \<Longrightarrow>
      P (tracks[nat idx := \<lparr>iter = None, absolute_time = m\<rparr>]) ct sg hist \<Longrightarrow>
      P tracks ct sg hist"
    and ReadFail: "\<And>tracks ct sg hist m idx it event it' e.
      scan_tracks tracks 0 INT_MAX (- 1) = (m, idx) \<Longrightarrow> idx \<noteq> - 1 \<Longrightarrow>
      iter (tracks ! nat idx) = Some it \<Longrightarrow> MIDI_GetNextEvent it = Some (event, it') \<Longrightarrow>
      event_data event = Inl e \<Longrightarrow>
      merge_loop tracks ct sg hist = Inl e \<Longrightarrow> P tracks ct sg hist"
    and Emit: "\<And>tracks ct sg hist m idx it event it' data.
      scan_tracks tracks 0 INT_MAX (- 1) = (m, idx) \<Longrightarrow> idx \<noteq> - 1 \<Longrightarrow>
      iter (tracks ! nat idx) = Some it \<Longrightarrow> MIDI_GetNextEvent it = Some (event, it') \<Longrightarrow>
      event_data event = Inr data \<Longrightarrow> data \<noteq> 0 \<Longrightarrow>
      0 \<le> num_events sg \<Longrightarrow> nat (num_events sg) < length (native_events sg) \<Longrightarrow>
      merge_loop tracks ct sg hist =
        merge_loop (tracks[nat idx := \<lparr>iter = Some it', absolute_time = m\<rparr>]) m
          (sg\<lparr>native_events := (native_events sg)
                   [nat (num_events sg) :=
                      \<lparr>dwDeltaTime = word_of_int (m - ct), dwStreamID = 0, dwEvent = data\<rparr>],
                num_events := num_events sg + 1\<rparr>)
          (hist @ [(nat idx, iter_position it, m)]) \<Longrightarrow>
      P (tracks[nat idx := \<lparr>iter = Some it', absolute_time = m\<rparr>]) m
          (sg\<lparr>native_events := (native_events sg)
                   [nat (num_events sg) :=
                      \<lparr>dwDeltaTime = word_of_int (m - ct), dwStreamID = 0, dwEvent = data\<rparr>],
                num_events := num_events sg + 1\<rparr>)
          (hist @ [(nat idx, iter_position it, m)]) \<Longrightarrow>
      P tracks ct sg hist"
    and Full: "\<And>tracks ct sg hist m idx it event it' data.
      scan_tracks tracks 0 INT_MAX (- 1) = (m, idx) \<Longrightarrow> idx \<noteq> - 1 \<Longrightarrow>
      iter (tracks ! nat idx) = Some it \<Longrightarrow> MIDI_GetNextEvent it = Some (event, it') \<Longrightarrow>
      event_data event = Inr data \<Longrightarrow> data \<noteq> 0 \<Longrightarrow>
      \<not> (0 \<le> num_events sg \<and> nat (num_events sg) < length (native_events sg)) \<Longrightarrow>
      merge_loop tracks ct sg hist = Inl WriteOutOfBounds \<Longrightarrow> P tracks ct sg hist"
    and Drop: "\<And>tracks ct sg hist m idx it event it'.
      scan_tracks tracks 0 INT_MAX (- 1) = (m, idx) \<Longrightarrow> idx \<noteq> - 1 \<Longrightarrow>
      iter (tracks ! nat idx) = Some it \<Longrightarrow> MIDI_GetNextEvent it = Some (event, it') \<Longrightarrow>
      event_data event = Inr 0 \<Longrightarrow>
      merge_loop tracks ct sg hist =
        merge_loop (tracks[nat idx := \<lparr>iter = Some it', absolute_time = m\<rparr>]) ct sg hist \<Longrightarrow>
      P (tracks[nat idx := \<lparr>iter = Some it', absolute_time = m\<rparr>]) ct sg hist \<Longrightarrow>
      P tracks ct sg hist"
  shows "P tracks ct sg hist"
proof (induction tracks ct sg hist rule: merge_loop.induct)
  case (1 tracks ct sg hist)
  obtain m idx where sc: "scan_tracks tracks 0 INT_MAX (- 1) = (m, idx)"
    by (cases "scan_tracks tracks 0 INT_MAX (- 1)") auto
  show ?case
  proof (cases "idx = - 1")
    case True
    with sc show ?thesis
      by (intro Done [of tracks m]) (simp_all add: merge_loop.simps [of tracks])
  next
    case ne: False
    show ?thesis
    proof (cases "iter (tracks ! nat idx)")
      case None
      with sc ne show ?thesis by (intro Null [of tracks m idx]) simp_all
    next
      case (Some it)
      show ?thesis
      proof (cases "MIDI_GetNextEvent it")
        case None
        have eq: "merge_loop tracks ct sg hist =
            merge_loop (tracks[nat idx := \<lparr>iter = None, absolute_time = m\<rparr>]) ct sg hist"
          using sc ne Some None by (simp add: merge_loop.simps [of tracks])
        show ?thesis
          using sc ne Some None eq "1.IH"(1) [OF sc [symmetric] ne Some None]
          by (intro Close [of tracks m idx it]) simp_all
      next
        case nx: (Some a)
        obtain event it' where a: "a = (event, it')" by (cases a) auto
        show ?thesis
        proof (cases "event_data event")
          case (Inl e)
          have "merge_loop tracks ct sg hist = Inl e"
            using sc ne Some nx a Inl by (simp add: merge_loop.simps [of tracks])
          with sc ne Some nx a Inl show ?thesis
            by (intro ReadFail [of tracks m idx it event it' e]) simp_all
        next
          case (Inr data)
          show ?thesis
          proof (cases "data = 0")
            case True
            have eq: "merge_loop tracks ct sg hist =
                merge_loop (tracks[nat idx := \<lparr>iter = Some it', absolute_time = m\<rparr>]) ct sg hist"
              using sc ne Some nx a Inr True by (simp add: merge_loop.simps [of tracks])
            show ?thesis
              using sc ne Some nx a Inr True eq
                "1.IH"(3) [OF sc [symmetric] ne Some nx a [symmetric] Inr]
              by (intro Drop [of tracks m idx it event it']) simp_all
          next
            case nz: False
            show ?thesis
            proof (cases "0 \<le> num_events sg \<and> nat (num_events sg) < length (native_events sg)")
              case True
              have eq: "merge_loop tracks ct sg hist =
                  merge_loop (tracks[nat idx := \<lparr>iter = Some it', absolute_time = m\<rparr>]) m
                    (sg\<lparr>native_events := (native_events sg)
                       [nat (num_events sg) :=
                          \<lparr>dwDeltaTime = word_of_int (m - ct), dwStreamID = 0, dwEvent = data\<rparr>],
                       num_events := num_events sg + 1\<rparr>)
                    (hist @ [(nat idx, iter_position it, m)])"
                using sc ne Some nx a Inr nz True by (simp add: merge_loop.simps [of tracks])
              show ?thesis
                using sc ne Some nx a Inr nz True eq
                  "1.IH"(2) [OF sc [symmetric] ne Some nx a [symmetric] Inr nz True]
                by (intro Emit [of tracks m idx it event it' data]) simp_all
            next
              case False
              have "merge_loop tracks ct sg hist = Inl WriteOutOfBounds"
                using sc ne Some nx a Inr nz False by (auto simp add: merge_loop.simps [of tracks])
              with sc ne Some nx a Inr nz False show ?thesis
                by (intro Full [of tracks m idx it event it' data]) simp_all
            qed
          qed
        qed
      qed
    qed
  qed
qed

subsection \<open>The output array is never overrun\<close>

lemma tracks_remaining_update:
  "n < length ts \<Longrightarrow>
     tracks_remaining (ts[n := t]) + remaining (ts ! n) = tracks_remaining ts + remaining t"
  unfolding tracks_remaining_def
proof (induction ts arbitrary: n)
  case Nil
  then show ?case by simp
next
  case (Cons a ts)
  then show ?case by (cases n) auto
qed

lemma tracks_remaining_close:
  assumes "scan_tracks ts 0 INT_MAX (- 1) = (m, idx)" and "idx \<noteq> - 1"
  shows "tracks_remaining (ts[nat idx := \<lparr>iter = None, absolute_time = m\<rparr>])
           \<le> tracks_remaining ts"
proof -
  from scan_tracks_open [OF assms] have "nat idx < length ts" by simp
  from tracks_remaining_update [OF this, of "\<lparr>iter = None, absolute_time = m\<rparr>"]
  show ?thesis by (simp add: remaining_def)
qed

lemma tracks_remaining_next:
  assumes "scan_tracks ts 0 INT_MAX (- 1) = (m, idx)" and "idx \<noteq> - 1"
    and "iter (ts ! nat idx) = Some it" and "MIDI_GetNextEvent it = Some (event, it')"
  shows "Suc (tracks_remaining (ts[nat idx := \<lparr>iter = Some it', absolute_time = m\<rparr>]))
           = tracks_remaining ts"
proof -
  from scan_tracks_open [OF assms(1,2)] have "nat idx < length ts" by simp
  moreover from assms(4) have "iter_position it < length (track it)"
    and "it' = it\<lparr>iter_position := iter_position it + 1\<rparr>"
    by (auto simp: MIDI_GetNextEvent_def split: if_splits)
  ultimately show ?thesis
    using tracks_remaining_update [of "nat idx" ts "\<lparr>iter = Some it', absolute_time = m\<rparr>"]
      assms(3)
    by (simp add: remaining_def)
qed

lemma merge_loop_room:
  "room tracks sg \<Longrightarrow>
     merge_loop tracks ct sg hist \<noteq> Inl WriteOutOfBounds
     \<and> (\<forall>song' hist'. merge_loop tracks ct sg hist = Inr (song', hist')
           \<longrightarrow> grown sg song')"
proof (induction tracks ct sg hist rule: merge_loop_induct)
  case (Done tracks ct sg hist m)
  then show ?case by (simp add: room_def grown_def)
next
  case (Null tracks ct sg hist m idx)
  with scan_tracks_open [of tracks INT_MAX m idx] show ?case by simp
next
  case (Close tracks ct sg hist m idx it)
  from Close.prems tracks_remaining_close [OF Close.hyps(1,2)]
  have "room (tracks[nat idx := \<lparr>iter = None, absolute_time = m\<rparr>]) sg"
    by (simp add: room_def)
  from Close.IH [OF this] Close.hyps(5) show ?case by simp
next
  case (ReadFail tracks ct sg hist m idx it event it' e)
  then show ?case by (cases e) (auto simp: event_data_def split: midi_event_type_t.splits if_splits)
next
  case (Emit tracks ct sg hist m idx it event it' data)
  let ?sg = "sg\<lparr>native_events := (native_events sg)
                   [nat (num_events sg) :=
                      \<lparr>dwDeltaTime = word_of_int (m - ct), dwStreamID = 0, dwEvent = data\<rparr>],
                num_events := num_events sg + 1\<rparr>"
  from Emit.prems tracks_remaining_next [OF Emit.hyps(1-4)]
  have "room (tracks[nat idx := \<lparr>iter = Some it', absolute_time = m\<rparr>]) ?sg"
    by (simp add: room_def nat_add_distrib)
  moreover have "grown ?sg s' \<Longrightarrow> grown sg s'" for s'
    by (auto simp: grown_def)
  ultimately show ?case
    using Emit.IH Emit.hyps(9) by auto
next
  case (Full tracks ct sg hist m idx it event it' data)
  from tracks_remaining_next [OF Full.hyps(1-4)] Full.prems Full.hyps(7)
  show ?case by (auto simp: room_def)
next
  case (Drop tracks ct sg hist m idx it event it')
  from Drop.prems tracks_remaining_next [OF Drop.hyps(1-4)]
  have "room (tracks[nat idx := \<lparr>iter = Some it', absolute_time = m\<rparr>]) sg"
    by (simp add: room_def)
  from Drop.IH [OF this] Drop.hyps(6) show ?case by simp
qed

lemma tracks_remaining_initial:
  "tracks_remaining
     (map (\<lambda>i. \<lparr>iter = Some (MIDI_IterateTrack file i), absolute_time = 0\<rparr>)
          [0 ..< MIDI_NumTracks file]) = MIDI_NumEvents file"
proof -
  have "map (\<lambda>i. length (file_tracks file ! i)) [0 ..< length (file_tracks file)]
          = map length (file_tracks file)"
    by (rule nth_equalityI) simp_all
  then show ?thesis
    by (simp add: tracks_remaining_def MIDI_NumTracks_def MIDI_NumEvents_def remaining_def
        MIDI_IterateTrack_def comp_def)
qed

lemma MIDItoStream_room:
  assumes "num_events sg = 0"
  shows "MIDItoStream file sg \<noteq> Inl WriteOutOfBounds"
    and "MIDItoStream file sg = Inr (song', hist) \<Longrightarrow>
           length (native_events song') = MIDI_NumEvents file
           \<and> 0 \<le> num_events song' \<and> num_events song' \<le> int (MIDI_NumEvents file)"
proof -
  let ?ts = "map (\<lambda>i. \<lparr>iter = Some (MIDI_IterateTrack file i), absolute_time = 0\<rparr>)
               [0 ..< MIDI_NumTracks file]"
  let ?sg = "sg\<lparr>native_events :=
               replicate (MIDI_NumEvents file) \<lparr>dwDeltaTime = 0, dwStreamID = 0, dwEvent = 0\<rparr>\<rparr>"
  have "room ?ts ?sg"
    using assms by (simp add: room_def tracks_remaining_initial)
  from merge_loop_room [OF this, of 0 "[]"]
  show "MIDItoStream file sg \<noteq> Inl WriteOutOfBounds"
    and "MIDItoStream file sg = Inr (song', hist) \<Longrightarrow>
           length (native_events song') = MIDI_NumEvents file
           \<and> 0 \<le> num_events song' \<and> num_events song' \<le> int (MIDI_NumEvents file)"
    using assms by (auto simp: MIDItoStream_def grown_def)
qed

subsection \<open>The scan picks the least candidate time, the first track among equals\<close>

lemma to_int32_le: "to_int32 x \<le> INT_MAX"
proof -
  have "(x + 2 ^ 31) mod 2 ^ 32 < (2 ^ 32 :: int)" by simp
  then show ?thesis by (simp add: to_int32_def INT_MAX_def)
qed

lemma to_int32_id: "0 \<le> x \<Longrightarrow> x \<le> INT_MAX \<Longrightarrow> to_int32 x = x"
  by (simp add: to_int32_def INT_MAX_def)

lemma candidate_le: "candidate t \<le> INT_MAX"
  by (simp add: candidate_def to_int32_le split: option.splits)

lemma scan_tracks_min:
  assumes "scan_tracks ts i m0 idx0 = (m, idx)" and "m0 \<le> INT_MAX"
  shows "m \<le> m0 \<and> (\<forall>j < length ts. m \<le> candidate (ts ! j))
         \<and> (idx = idx0 \<and> m = m0
            \<or> i \<le> idx \<and> nat (idx - i) < length ts \<and> m < m0
              \<and> candidate (ts ! nat (idx - i)) = m
              \<and> (\<forall>j < nat (idx - i). m < candidate (ts ! j)))"
  using assms
proof (induction ts arbitrary: i m0 idx0)
  case Nil
  then show ?case by simp
next
  case (Cons t ts)
  have shift: "(t # ts) ! nat (idx - i) = ts ! nat (idx - (i + 1))"
    "nat (idx - i) = Suc (nat (idx - (i + 1)))" if "i + 1 \<le> idx"
    using that nth_Cons_shift [of i idx t ts] by simp_all
  have all_Suc: "(\<forall>j < Suc n. Q j) \<longleftrightarrow> Q 0 \<and> (\<forall>j < n. Q (Suc j))" for n and Q :: "nat \<Rightarrow> bool"
    using less_Suc_eq_0_disj by auto
  show ?case
  proof (cases "candidate t < m0")
    case True
    then obtain it where it: "iter t = Some it"
      using Cons.prems(2) by (auto simp: candidate_def split: option.splits)
    with True Cons.prems(1) have sc: "scan_tracks ts (i + 1) (candidate t) i = (m, idx)"
      by (simp add: candidate_def Let_def)
    from Cons.IH [OF sc candidate_le]
    have le: "m \<le> candidate t" and rest: "\<forall>j < length ts. m \<le> candidate (ts ! j)"
      and alt: "idx = i \<and> m = candidate t
         \<or> i + 1 \<le> idx \<and> nat (idx - (i + 1)) < length ts \<and> m < candidate t
           \<and> candidate (ts ! nat (idx - (i + 1))) = m
           \<and> (\<forall>j < nat (idx - (i + 1)). m < candidate (ts ! j))"
      by auto
    from le rest have a: "\<forall>j < length (t # ts). m \<le> candidate ((t # ts) ! j)"
      by (simp add: all_Suc)
    from alt show ?thesis
    proof
      assume "idx = i \<and> m = candidate t"
      with True a show ?thesis by simp
    next
      assume b: "i + 1 \<le> idx \<and> nat (idx - (i + 1)) < length ts \<and> m < candidate t
           \<and> candidate (ts ! nat (idx - (i + 1))) = m
           \<and> (\<forall>j < nat (idx - (i + 1)). m < candidate (ts ! j))"
      then have "i + 1 \<le> idx" by simp
      from shift [OF this] b True a show ?thesis
        by (simp add: all_Suc)
    qed
  next
    case False
    with Cons.prems(1) have sc: "scan_tracks ts (i + 1) m0 idx0 = (m, idx)"
      by (auto simp: candidate_def Let_def split: option.splits)
    from Cons.IH [OF sc Cons.prems(2)]
    have le: "m \<le> m0" and rest: "\<forall>j < length ts. m \<le> candidate (ts ! j)"
      and alt: "idx = idx0 \<and> m = m0
         \<or> i + 1 \<le> idx \<and> nat (idx - (i + 1)) < length ts \<and> m < m0
           \<and> candidate (ts ! nat (idx - (i + 1))) = m
           \<and> (\<forall>j < nat (idx - (i + 1)). m < candidate (ts ! j))"
      by auto
    from le rest False have a: "\<forall>j < length (t # ts). m \<le> candidate ((t # ts) ! j)"
      by (simp add: all_Suc)
    from alt show ?thesis
    proof
      assume "idx = idx0 \<and> m = m0"
      with a show ?thesis by simp
    next
      assume b: "i + 1 \<le> idx \<and> nat (idx - (i + 1)) < length ts \<and> m < m0
           \<and> candidate (ts ! nat (idx - (i + 1))) = m
           \<and> (\<forall>j < nat (idx - (i + 1)). m < candidate (ts ! j))"
      then have "i + 1 \<le> idx" by simp
      from shift [OF this] b False a show ?thesis
        by (simp add: all_Suc)
    qed
  qed
qed

lemma scan_tracks_selected:
  assumes "scan_tracks ts 0 INT_MAX (- 1) = (m, idx)" and "idx \<noteq> - 1"
  shows "0 \<le> idx" and "nat idx < length ts" and "candidate (ts ! nat idx) = m"
    and "m < INT_MAX" and "\<forall>j < length ts. m \<le> candidate (ts ! j)"
    and "\<forall>j < nat idx. m < candidate (ts ! j)"
  using scan_tracks_min [OF assms(1)] assms(2) by auto

lemma scan_tracks_none:
  assumes "scan_tracks ts 0 INT_MAX (- 1) = (m, - 1)"
  shows "\<forall>j < length ts. candidate (ts ! j) = INT_MAX"
proof -
  from scan_tracks_min [OF assms] have "m = INT_MAX" and "\<forall>j < length ts. m \<le> candidate (ts ! j)"
    by auto
  then show ?thesis using candidate_le by (auto intro: antisym)
qed

subsection \<open>Times of the source tracks\<close>

lemma track_time_Suc:
  "n < length evs \<Longrightarrow> track_time evs (Suc n) = track_time evs n + uint (delta_time (evs ! n))"
  by (simp add: track_time_def take_Suc_conv_app_nth)

lemma track_time_nonneg: "0 \<le> track_time evs n"
  unfolding track_time_def by (rule sum_list_nonneg) auto

lemma track_time_mono: "n \<le> k \<Longrightarrow> track_time evs n \<le> track_time evs k"
proof (induction k)
  case 0
  then show ?case by simp
next
  case (Suc k)
  show ?case
  proof (cases "n = Suc k")
    case True
    then show ?thesis by simp
  next
    case False
    with Suc have le: "track_time evs n \<le> track_time evs k" by simp
    show ?thesis
    proof (cases "k < length evs")
      case True
      have "0 \<le> uint (delta_time (evs ! k))" by simp
      with track_time_Suc [OF True] le show ?thesis by linarith
    next
      case False
      then have "track_time evs (Suc k) = track_time evs k" by (simp add: track_time_def)
      with le show ?thesis by simp
    qed
  qed
qed

lemma track_time_fit:
  "track_time evs (length evs) \<le> INT_MAX \<Longrightarrow> track_time evs n \<le> INT_MAX"
proof -
  assume a: "track_time evs (length evs) \<le> INT_MAX"
  have "track_time evs n = track_time evs (min n (length evs))"
    by (simp add: track_time_def min_def)
  also have "\<dots> \<le> track_time evs (length evs)" by (rule track_time_mono) simp
  finally show ?thesis using a by simp
qed

subsection \<open>The invariant of the merge\<close>

lemma candidate_open:
  assumes "track_inv evs t" and "track_time evs (length evs) \<le> INT_MAX" and "iter t = Some it"
  shows "candidate t =
           track_time evs (if iter_position it < length evs then Suc (iter_position it)
                           else iter_position it)"
proof (cases "iter_position it < length evs")
  case True
  from assms(1,3) have tr: "track it = evs" "absolute_time t = track_time evs (iter_position it)"
    by (simp_all add: track_inv_def)
  with True assms(3) have "candidate t = to_int32 (track_time evs (Suc (iter_position it)))"
    by (simp add: candidate_def MIDI_GetDeltaTime_def track_time_Suc)
  with True track_time_nonneg track_time_fit [OF assms(2)] show ?thesis
    by (simp add: to_int32_id)
next
  case False
  from assms(1,3) have tr: "track it = evs" "absolute_time t = track_time evs (iter_position it)"
    by (simp_all add: track_inv_def)
  with False assms(3) have "candidate t = to_int32 (track_time evs (iter_position it))"
    by (simp add: candidate_def MIDI_GetDeltaTime_def)
  with False track_time_nonneg track_time_fit [OF assms(2)] show ?thesis
    by (simp add: to_int32_id)
qed

lemma merge_inv_close:
  assumes inv: "merge_inv fs ts ct"
    and sc: "scan_tracks ts 0 INT_MAX (- 1) = (m, idx)" and ne: "idx \<noteq> - 1"
  shows "merge_inv fs (ts[nat idx := \<lparr>iter = None, absolute_time = m\<rparr>]) ct"
proof -
  note sel = scan_tracks_selected [OF sc ne]
  from inv sel(2,3,4) have "ct \<le> INT_MAX" by (auto simp: merge_inv_def)
  with inv sel(2) show ?thesis
    by (auto simp: merge_inv_def nth_list_update track_inv_def candidate_def)
qed

lemma merge_inv_next:
  assumes inv: "merge_inv fs ts ct"
    and sc: "scan_tracks ts 0 INT_MAX (- 1) = (m, idx)" and ne: "idx \<noteq> - 1"
    and it: "iter (ts ! nat idx) = Some it" and nx: "MIDI_GetNextEvent it = Some (event, it')"
  shows "nat idx < length fs" and "iter_position it < length (fs ! nat idx)"
    and "event = fs ! nat idx ! iter_position it"
    and "m = track_time (fs ! nat idx) (Suc (iter_position it))"
    and "ct \<le> m" and "m \<le> INT_MAX"
    and "merge_inv fs (ts[nat idx := \<lparr>iter = Some it', absolute_time = m\<rparr>]) m"
    and "merge_inv fs (ts[nat idx := \<lparr>iter = Some it', absolute_time = m\<rparr>]) ct"
proof -
  note sel = scan_tracks_selected [OF sc ne]
  let ?evs = "fs ! nat idx" and ?p = "iter_position it"
  from inv sel(2) show n: "nat idx < length fs" by (simp add: merge_inv_def)
  from inv n have ti: "track_inv ?evs (ts ! nat idx)"
    and fit: "track_time ?evs (length ?evs) \<le> INT_MAX"
    by (simp_all add: merge_inv_def)
  from ti it have tr: "track it = ?evs" by (simp add: track_inv_def)
  from nx have p: "?p < length (track it)" and ev: "event = track it ! ?p"
    and it': "it' = it\<lparr>iter_position := ?p + 1\<rparr>"
    by (auto simp: MIDI_GetNextEvent_def split: if_splits)
  from p tr show p': "?p < length ?evs" by simp
  from ev tr show "event = ?evs ! ?p" by simp
  from candidate_open [OF ti fit it] p' sel(3)
  show m: "m = track_time ?evs (Suc ?p)" by simp
  from inv sel(2,3) show cm: "ct \<le> m" by (auto simp: merge_inv_def)
  from sel(4) show "m \<le> INT_MAX" by simp
  let ?t = "\<lparr>iter = Some it', absolute_time = m\<rparr>"
  have ti': "track_inv ?evs ?t"
    using tr p' m it' by (simp add: track_inv_def)
  have "candidate ?t = track_time ?evs (if Suc ?p < length ?evs then Suc (Suc ?p) else Suc ?p)"
    using candidate_open [OF ti' fit, of it'] it' by simp
  then have c: "m \<le> candidate ?t"
    using m track_time_mono [of "Suc ?p" "Suc (Suc ?p)" ?evs] by (simp split: if_splits)
  have m0: "0 \<le> m" using m track_time_nonneg by simp
  show "merge_inv fs (ts[nat idx := ?t]) m"
    using inv sel(2,5) ti' c m0 by (auto simp: merge_inv_def nth_list_update)
  show "merge_inv fs (ts[nat idx := ?t]) ct"
    using inv sel(2) ti' c cm by (auto simp: merge_inv_def nth_list_update)
qed

lemma merge_inv_initial:
  assumes "times_fit file"
  shows "merge_inv (file_tracks file)
           (map (\<lambda>i. \<lparr>iter = Some (MIDI_IterateTrack file i), absolute_time = 0\<rparr>)
                [0 ..< MIDI_NumTracks file]) 0"
proof -
  have fit: "track_time (file_tracks file ! j) (length (file_tracks file ! j)) \<le> INT_MAX"
    if "j < length (file_tracks file)" for j
    using assms that by (simp add: times_fit_def list_all_length)
  have inv: "track_inv (file_tracks file ! j)
               \<lparr>iter = Some (MIDI_IterateTrack file j), absolute_time = 0\<rparr>" for j
    by (simp add: track_inv_def MIDI_IterateTrack_def track_time_def)
  have "0 \<le> candidate \<lparr>iter = Some (MIDI_IterateTrack file j), absolute_time = 0\<rparr>"
    if "j < length (file_tracks file)" for j
    using candidate_open [OF inv fit [OF that], of "MIDI_IterateTrack file j"] track_time_nonneg
    by simp
  with fit inv show ?thesis
    by (simp add: merge_inv_def MIDI_NumTracks_def)
qed

subsection \<open>What the merge writes\<close>

lemma merge_loop_history:
  "merge_loop tracks ct sg hist = Inr (song', hist') \<Longrightarrow>
     \<exists>new. hist' = hist @ new \<and> num_events song' = num_events sg + int (length new)"
proof (induction tracks ct sg hist rule: merge_loop_induct)
  case (Null tracks ct sg hist m idx)
  with scan_tracks_open [of tracks INT_MAX m idx] show ?case by simp
next
  case (Emit tracks ct sg hist m idx it event it' data)
  from Emit.IH Emit.prems Emit.hyps(9) show ?case by auto
qed auto

lemma merge_loop_emitted:
  "merge_inv fs tracks ct \<Longrightarrow> 0 \<le> num_events sg \<Longrightarrow>
   merge_loop tracks ct sg hist = Inr (song', hist') \<Longrightarrow>
     \<exists>new. hist' = hist @ new
       \<and> emitted fs (native_events song') (nat (num_events sg)) ct new
       \<and> length (native_events song') = length (native_events sg)
       \<and> (\<forall>k < nat (num_events sg). native_events song' ! k = native_events sg ! k)"
proof (induction tracks ct sg hist rule: merge_loop_induct)
  case (Done tracks ct sg hist m)
  then show ?case by simp
next
  case (Null tracks ct sg hist m idx)
  with scan_tracks_open [of tracks INT_MAX m idx] show ?case by simp
next
  case (Close tracks ct sg hist m idx it)
  from merge_inv_close [OF Close.prems(1) Close.hyps(1,2)] Close.IH Close.prems(2,3) Close.hyps(5)
  show ?case by simp
next
  case (ReadFail tracks ct sg hist m idx it event it' e)
  then show ?case by simp
next
  case (Emit tracks ct sg hist m idx it event it' data)
  note nx = merge_inv_next [OF Emit.prems(1) Emit.hyps(1-4)]
  let ?n = "nat (num_events sg)"
  let ?e = "\<lparr>dwDeltaTime = word_of_int (m - ct), dwStreamID = 0, dwEvent = data\<rparr>"
  let ?sg = "sg\<lparr>native_events := (native_events sg)[?n := ?e],
                    num_events := num_events sg + 1\<rparr>"
  let ?h = "(nat idx, iter_position it, m)"
  have n1: "nat (num_events ?sg) = Suc ?n" using Emit.hyps(7) by simp
  from Emit.IH [OF nx(7)] Emit.prems(3) Emit.hyps(7,9)
  obtain new where new: "hist' = (hist @ [?h]) @ new"
    and em: "emitted fs (native_events song') (nat (num_events ?sg)) m new"
    and len: "length (native_events song') = length (native_events ?sg)"
    and old: "\<forall>k < nat (num_events ?sg). native_events song' ! k = native_events ?sg ! k"
    by auto
  from old n1 Emit.hyps(8) have at: "native_events song' ! ?n = ?e"
    and old': "\<forall>k < ?n. native_events song' ! k = native_events sg ! k"
    by (simp_all add: nth_list_update)
  have "0 \<le> m - ct" "m - ct < 2 ^ 32" using nx(5,6) Emit.prems(1)
    by (simp_all add: merge_inv_def INT_MAX_def)
  then have "uint (word_of_int (m - ct) :: 32 word) = m - ct"
    by (simp add: uint_word_of_int del: of_int_diff)
  then have d: "uint (word_of_int m - word_of_int ct :: 32 word) = m - ct"
    by simp
  have "emitted fs (native_events song') ?n ct (?h # new)"
    using em n1 at d nx(1-5) Emit.hyps(5,6,8) len by simp
  with new len old' show ?case by auto
next
  case (Full tracks ct sg hist m idx it event it' data)
  then show ?case by simp
next
  case (Drop tracks ct sg hist m idx it event it')
  note nx = merge_inv_next [OF Drop.prems(1) Drop.hyps(1-4)]
  from Drop.IH [OF nx(8)] Drop.prems(2,3) Drop.hyps(6) show ?case by simp
qed

lemma emitted_sorted:
  "emitted fs evs n prev hs \<Longrightarrow>
     sorted (map (\<lambda>h. snd (snd h)) hs) \<and> (\<forall>h \<in> set hs. prev \<le> snd (snd h))"
proof (induction hs arbitrary: n prev)
  case Nil
  then show ?case by simp
next
  case (Cons h hs)
  from Cons.prems have "emitted fs evs (Suc n) (snd (snd h)) hs" and "prev \<le> snd (snd h)"
    by auto
  with Cons.IH [of "Suc n" "snd (snd h)"] show ?case by fastforce
qed

lemma emitted_nth:
  "emitted fs evs n prev hs \<Longrightarrow> k < length hs \<Longrightarrow>
     n + k < length evs
     \<and> fst (hs ! k) < length fs \<and> fst (snd (hs ! k)) < length (fs ! fst (hs ! k))
     \<and> snd (snd (hs ! k)) = track_time (fs ! fst (hs ! k)) (Suc (fst (snd (hs ! k))))
     \<and> uint (dwDeltaTime (evs ! (n + k)))
         = snd (snd (hs ! k)) - (if k = 0 then prev else snd (snd (hs ! (k - 1))))
     \<and> dwStreamID (evs ! (n + k)) = 0
     \<and> event_data (fs ! fst (hs ! k) ! fst (snd (hs ! k))) = Inr (dwEvent (evs ! (n + k)))
     \<and> dwEvent (evs ! (n + k)) \<noteq> 0
     \<and> prev + (\<Sum>i \<le> k. uint (dwDeltaTime (evs ! (n + i)))) = snd (snd (hs ! k))"
proof (induction hs arbitrary: n prev k)
  case Nil
  then show ?case by simp
next
  case (Cons h hs)
  show ?case
  proof (cases k)
    case 0
    with Cons.prems show ?thesis by simp
  next
    case (Suc k')
    from Cons.prems Suc have e: "emitted fs evs (Suc n) (snd (snd h)) hs" and k': "k' < length hs"
      and d: "uint (dwDeltaTime (evs ! n)) = snd (snd h) - prev"
      by auto
    have "(\<Sum>i \<le> Suc k'. uint (dwDeltaTime (evs ! (n + i))))
            = uint (dwDeltaTime (evs ! n)) + (\<Sum>i \<le> k'. uint (dwDeltaTime (evs ! (Suc n + i))))"
      by (simp add: sum.atMost_Suc_shift del: sum.atMost_Suc)
    with Cons.IH [OF e k'] d Suc show ?thesis
      by (cases k') simp_all
  qed
qed

subsection \<open>The order of the entries\<close>

lemma passed_close:
  assumes p: "passed ts ct h"
    and sc: "scan_tracks ts 0 INT_MAX (- 1) = (m, idx)" and ne: "idx \<noteq> - 1"
  shows "passed (ts[nat idx := \<lparr>iter = None, absolute_time = m\<rparr>]) ct h"
proof -
  have c: "candidate \<lparr>iter = None, absolute_time = m\<rparr> = INT_MAX" by (simp add: candidate_def)
  let ?t = "\<lparr>iter = None, absolute_time = m\<rparr>"
  have a: "snd (snd h) < INT_MAX" if "nat idx < fst h" "nat idx < length ts"
  proof -
    from p that have "snd (snd h) < candidate (ts ! nat idx)" by (simp add: passed_def)
    with candidate_le [of "ts ! nat idx"] show ?thesis by simp
  qed
  have r: "(j < fst h \<longrightarrow> snd (snd h) < candidate (ts[nat idx := ?t] ! j))
           \<and> (j = fst h \<longrightarrow>
                (case iter (ts[nat idx := ?t] ! j) of None \<Rightarrow> True
                 | Some it \<Rightarrow> fst (snd h) < iter_position it))"
    if j: "j < length ts" for j
  proof (cases "j = nat idx")
    case True
    with a c j show ?thesis by simp
  next
    case False
    with p j show ?thesis by (simp add: passed_def)
  qed
  from p have "snd (snd h) \<le> ct" by (simp add: passed_def)
  with r show ?thesis unfolding passed_def by simp
qed

lemma passed_next:
  assumes inv: "merge_inv fs ts ct" and p: "passed ts ct h"
    and sc: "scan_tracks ts 0 INT_MAX (- 1) = (m, idx)" and ne: "idx \<noteq> - 1"
    and it: "iter (ts ! nat idx) = Some it" and nx: "MIDI_GetNextEvent it = Some (event, it')"
  shows "passed (ts[nat idx := \<lparr>iter = Some it', absolute_time = m\<rparr>]) ct h"
    and "passed (ts[nat idx := \<lparr>iter = Some it', absolute_time = m\<rparr>]) m h"
proof -
  note sel = scan_tracks_selected [OF sc ne]
  note n = merge_inv_next [OF inv sc ne it nx]
  let ?t = "\<lparr>iter = Some it', absolute_time = m\<rparr>"
  from nx have it': "iter_position it' = iter_position it + 1"
    by (auto simp: MIDI_GetNextEvent_def split: if_splits)
  from n(7) sel(2) have c: "m \<le> candidate ?t"
    by (auto simp: merge_inv_def dest!: spec [of _ "nat idx"])
  have a: "snd (snd h) < candidate ?t" if "nat idx < fst h"
  proof -
    from p that sel(2) have "snd (snd h) < candidate (ts ! nat idx)" by (simp add: passed_def)
    with sel(3) c show ?thesis by simp
  qed
  have b: "fst (snd h) < iter_position it'" if "nat idx = fst h"
  proof -
    from p that sel(2) it have "fst (snd h) < iter_position it"
      by (auto simp: passed_def dest!: spec [of _ "nat idx"])
    with it' show ?thesis by simp
  qed
  have r: "(j < fst h \<longrightarrow> snd (snd h) < candidate (ts[nat idx := ?t] ! j))
           \<and> (j = fst h \<longrightarrow>
                (case iter (ts[nat idx := ?t] ! j) of None \<Rightarrow> True
                 | Some it \<Rightarrow> fst (snd h) < iter_position it))"
    if j: "j < length ts" for j
  proof (cases "j = nat idx")
    case True
    with a b sel(2) show ?thesis by simp
  next
    case False
    with p j show ?thesis by (simp add: passed_def)
  qed
  from p have le: "snd (snd h) \<le> ct" by (simp add: passed_def)
  from le r show "passed (ts[nat idx := ?t]) ct h"
    unfolding passed_def by simp
  from le n(5) have "snd (snd h) \<le> m" by simp
  with r show "passed (ts[nat idx := ?t]) m h"
    unfolding passed_def by simp
qed

lemma order_inv_close:
  assumes "order_inv ts ct hist"
    and "scan_tracks ts 0 INT_MAX (- 1) = (m, idx)" and "idx \<noteq> - 1"
  shows "order_inv (ts[nat idx := \<lparr>iter = None, absolute_time = m\<rparr>]) ct hist"
  using assms(1) passed_close [OF _ assms(2,3)] by (auto simp: order_inv_def)

lemma order_inv_drop:
  assumes "merge_inv fs ts ct" and "order_inv ts ct hist"
    and "scan_tracks ts 0 INT_MAX (- 1) = (m, idx)" and "idx \<noteq> - 1"
    and "iter (ts ! nat idx) = Some it" and "MIDI_GetNextEvent it = Some (event, it')"
  shows "order_inv (ts[nat idx := \<lparr>iter = Some it', absolute_time = m\<rparr>]) ct hist"
  using assms(2) passed_next(1) [OF assms(1) _ assms(3-6)] by (auto simp: order_inv_def)

lemma order_inv_emit:
  assumes inv: "merge_inv fs ts ct" and o: "order_inv ts ct hist"
    and sc: "scan_tracks ts 0 INT_MAX (- 1) = (m, idx)" and ne: "idx \<noteq> - 1"
    and it: "iter (ts ! nat idx) = Some it" and nx: "MIDI_GetNextEvent it = Some (event, it')"
  shows "order_inv (ts[nat idx := \<lparr>iter = Some it', absolute_time = m\<rparr>]) m
           (hist @ [(nat idx, iter_position it, m)])"
proof -
  note sel = scan_tracks_selected [OF sc ne]
  note n = merge_inv_next [OF inv sc ne it nx]
  let ?t = "\<lparr>iter = Some it', absolute_time = m\<rparr>" and ?h = "(nat idx, iter_position it, m)"
  from nx have it': "iter_position it' = iter_position it + 1"
    by (auto simp: MIDI_GetNextEvent_def split: if_splits)
  have new: "passed (ts[nat idx := ?t]) m ?h"
    using sel(2,6) it' by (auto simp: passed_def nth_list_update)
  have old: "passed (ts[nat idx := ?t]) m h" if "h \<in> set hist" for h
    using o that passed_next(2) [OF inv _ sc ne it nx] by (simp add: order_inv_def)
  have e: "earlier h ?h" if "h \<in> set hist" for h
  proof -
    from o that have p: "passed ts ct h" by (simp add: order_inv_def)
    then have le: "snd (snd h) \<le> m" using n(5) by (simp add: passed_def)
    show ?thesis
    proof (cases "snd (snd h) = m")
      case False
      with le show ?thesis by (simp add: earlier_def)
    next
      case True
      have "\<not> nat idx < fst h"
      proof
        assume "nat idx < fst h"
        with p sel(2) have "snd (snd h) < candidate (ts ! nat idx)" by (simp add: passed_def)
        with sel(3) True show False by simp
      qed
      moreover have "fst (snd h) < iter_position it" if "fst h = nat idx"
        using p that sel(2) it by (auto simp: passed_def dest!: spec [of _ "nat idx"])
      ultimately show ?thesis using True by (auto simp: earlier_def)
    qed
  qed
  have "earlier ((hist @ [?h]) ! k) ((hist @ [?h]) ! l)"
    if "l < length (hist @ [?h])" "k < l" for k l
  proof (cases "l < length hist")
    case True
    with o that show ?thesis by (simp add: order_inv_def nth_append)
  next
    case False
    with that have l: "l = length hist" and k: "k < length hist" by simp_all
    then have "hist ! k \<in> set hist" by simp
    from e [OF this] l k show ?thesis by (simp add: nth_append)
  qed
  with new old show ?thesis by (auto simp: order_inv_def)
qed

lemma merge_loop_order:
  "merge_inv fs tracks ct \<Longrightarrow> order_inv tracks ct hist \<Longrightarrow>
   merge_loop tracks ct sg hist = Inr (song', hist') \<Longrightarrow>
     (\<forall>l < length hist'. \<forall>k < l. earlier (hist' ! k) (hist' ! l))"
proof (induction tracks ct sg hist rule: merge_loop_induct)
  case (Done tracks ct sg hist m)
  then show ?case by (simp add: order_inv_def)
next
  case (Null tracks ct sg hist m idx)
  with scan_tracks_open [of tracks INT_MAX m idx] show ?case by simp
next
  case (Close tracks ct sg hist m idx it)
  from Close.IH [OF merge_inv_close [OF Close.prems(1) Close.hyps(1,2)]
      order_inv_close [OF Close.prems(2) Close.hyps(1,2)]] Close.prems(3) Close.hyps(5)
  show ?case by simp
next
  case (ReadFail tracks ct sg hist m idx it event it' e)
  then show ?case by simp
next
  case (Emit tracks ct sg hist m idx it event it' data)
  note nx = merge_inv_next [OF Emit.prems(1) Emit.hyps(1-4)]
  from Emit.IH [OF nx(7) order_inv_emit [OF Emit.prems(1,2) Emit.hyps(1-4)]]
    Emit.prems(3) Emit.hyps(9)
  show ?case by simp
next
  case (Full tracks ct sg hist m idx it event it' data)
  then show ?case by simp
next
  case (Drop tracks ct sg hist m idx it event it')
  note nx = merge_inv_next [OF Drop.prems(1) Drop.hyps(1-4)]
  from Drop.IH [OF nx(8) order_inv_drop [OF Drop.prems(1,2) Drop.hyps(1-4)]]
    Drop.prems(3) Drop.hyps(6)
  show ?case by simp
qed

subsection \<open>No event is left out\<close>

lemma covered_close:
  assumes inv: "merge_inv fs ts ct" and c: "covered fs ts hist"
    and sc: "scan_tracks ts 0 INT_MAX (- 1) = (m, idx)" and ne: "idx \<noteq> - 1"
    and it: "iter (ts ! nat idx) = Some it" and nx: "MIDI_GetNextEvent it = None"
  shows "covered fs (ts[nat idx := \<lparr>iter = None, absolute_time = m\<rparr>]) hist"
proof -
  note sel = scan_tracks_selected [OF sc ne]
  from inv sel(2) have n: "nat idx < length fs" and len: "length ts = length fs"
    by (simp_all add: merge_inv_def)
  from inv n it have tr: "track it = fs ! nat idx" by (auto simp: merge_inv_def track_inv_def)
  from nx have "\<not> iter_position it < length (track it)"
    by (simp add: MIDI_GetNextEvent_def split: if_splits)
  with tr have all: "p < iter_position it" if "p < length (fs ! nat idx)" for p
    using that by simp
  have "\<exists>m. (j, p, m) \<in> set hist"
    if j: "j < length fs" and p: "p < length (fs ! j)"
      and o: "case iter (ts[nat idx := \<lparr>iter = None, absolute_time = m\<rparr>] ! j) of
                None \<Rightarrow> True | Some it \<Rightarrow> p < iter_position it"
      and w: "has_word (fs ! j ! p)" for j p
  proof (cases "j = nat idx")
    case True
    with c j p w it all [of p] show ?thesis by (simp add: covered_def)
  next
    case False
    with o c j p w show ?thesis by (simp add: covered_def)
  qed
  then show ?thesis unfolding covered_def by blast
qed

lemma covered_next:
  assumes inv: "merge_inv fs ts ct" and c: "covered fs ts hist"
    and sc: "scan_tracks ts 0 INT_MAX (- 1) = (m, idx)" and ne: "idx \<noteq> - 1"
    and it: "iter (ts ! nat idx) = Some it" and nx: "MIDI_GetNextEvent it = Some (event, it')"
  shows "covered fs (ts[nat idx := \<lparr>iter = Some it', absolute_time = m\<rparr>])
           (hist @ [(nat idx, iter_position it, m)])"
    and "\<not> has_word event \<Longrightarrow>
           covered fs (ts[nat idx := \<lparr>iter = Some it', absolute_time = m\<rparr>]) hist"
proof -
  note sel = scan_tracks_selected [OF sc ne]
  note n = merge_inv_next [OF inv sc ne it nx]
  let ?t = "\<lparr>iter = Some it', absolute_time = m\<rparr>" and ?h = "(nat idx, iter_position it, m)"
  from nx have it': "iter_position it' = iter_position it + 1"
    by (auto simp: MIDI_GetNextEvent_def split: if_splits)
  have old: "\<exists>m. (j, p, m) \<in> set hist"
    if j: "j < length fs" and p: "p < length (fs ! j)"
      and o: "case iter (ts[nat idx := ?t] ! j) of
                None \<Rightarrow> True | Some it \<Rightarrow> p < iter_position it"
      and w: "has_word (fs ! j ! p)" and other: "j \<noteq> nat idx \<or> p \<noteq> iter_position it" for j p
  proof (cases "j = nat idx")
    case True
    with o sel(2) it' other have "p < iter_position it" by simp
    with True c j p w it show ?thesis by (simp add: covered_def)
  next
    case False
    with o c j p w show ?thesis by (simp add: covered_def)
  qed
  have "\<exists>m'. (j, p, m') \<in> set (hist @ [?h])"
    if j: "j < length fs" and p: "p < length (fs ! j)"
      and o: "case iter (ts[nat idx := ?t] ! j) of
                None \<Rightarrow> True | Some it \<Rightarrow> p < iter_position it"
      and w: "has_word (fs ! j ! p)" for j p
  proof (cases "j = nat idx \<and> p = iter_position it")
    case True
    then show ?thesis by auto
  next
    case False
    with old [OF j p o w] show ?thesis by auto
  qed
  then show "covered fs (ts[nat idx := ?t]) (hist @ [?h])"
    unfolding covered_def by blast
  assume nw: "\<not> has_word event"
  have "\<exists>m. (j, p, m) \<in> set hist"
    if j: "j < length fs" and p: "p < length (fs ! j)"
      and o: "case iter (ts[nat idx := ?t] ! j) of
                None \<Rightarrow> True | Some it \<Rightarrow> p < iter_position it"
      and w: "has_word (fs ! j ! p)" for j p
  proof -
    from nw n(3) w have "j \<noteq> nat idx \<or> p \<noteq> iter_position it" by auto
    from old [OF j p o w this] show ?thesis .
  qed
  then show "covered fs (ts[nat idx := ?t]) hist"
    unfolding covered_def by blast
qed

lemma merge_loop_covers:
  "merge_inv fs tracks ct \<Longrightarrow>
   \<forall>j < length fs. track_time (fs ! j) (length (fs ! j)) < INT_MAX \<Longrightarrow>
   covered fs tracks hist \<Longrightarrow>
   merge_loop tracks ct sg hist = Inr (song', hist') \<Longrightarrow>
     (\<forall>j < length fs. \<forall>p < length (fs ! j).
         has_word (fs ! j ! p) \<longrightarrow> (\<exists>m. (j, p, m) \<in> set hist'))"
proof (induction tracks ct sg hist rule: merge_loop_induct)
  case (Done tracks ct sg hist m)
  from Done.prems(1) have len: "length tracks = length fs" by (simp add: merge_inv_def)
  have closed: "iter (tracks ! j) = None" if j: "j < length fs" for j
  proof (cases "iter (tracks ! j)")
    case None
    then show ?thesis .
  next
    case (Some it)
    from Done.prems(1) j have ti: "track_inv (fs ! j) (tracks ! j)"
      and fit: "track_time (fs ! j) (length (fs ! j)) \<le> INT_MAX"
      by (simp_all add: merge_inv_def)
    from ti Some have le: "iter_position it \<le> length (fs ! j)" by (simp add: track_inv_def)
    have "candidate (tracks ! j) \<le> track_time (fs ! j) (length (fs ! j))"
      using candidate_open [OF ti fit Some] le
        track_time_mono [of "Suc (iter_position it)" "length (fs ! j)" "fs ! j"]
        track_time_mono [of "iter_position it" "length (fs ! j)" "fs ! j"]
      by (simp split: if_splits)
    with Done.prems(2) j have "candidate (tracks ! j) < INT_MAX" by fastforce
    with scan_tracks_none [OF Done.hyps(1)] j len show ?thesis by simp
  qed
  from Done.prems(4) Done.hyps(2) have "hist' = hist" by simp
  with Done.prems(3) closed show ?case by (simp add: covered_def)
next
  case (Null tracks ct sg hist m idx)
  with scan_tracks_open [of tracks INT_MAX m idx] show ?case by simp
next
  case (Close tracks ct sg hist m idx it)
  from Close.IH [OF merge_inv_close [OF Close.prems(1) Close.hyps(1,2)] Close.prems(2)
      covered_close [OF Close.prems(1,3) Close.hyps(1-4)]] Close.prems(4) Close.hyps(5)
  show ?case by simp
next
  case (ReadFail tracks ct sg hist m idx it event it' e)
  then show ?case by simp
next
  case (Emit tracks ct sg hist m idx it event it' data)
  note nx = merge_inv_next [OF Emit.prems(1) Emit.hyps(1-4)]
  from Emit.IH [OF nx(7) Emit.prems(2) covered_next(1) [OF Emit.prems(1,3) Emit.hyps(1-4)]]
    Emit.prems(4) Emit.hyps(9)
  show ?case by simp
next
  case (Full tracks ct sg hist m idx it event it' data)
  then show ?case by simp
next
  case (Drop tracks ct sg hist m idx it event it')
  note nx = merge_inv_next [OF Drop.prems(1) Drop.hyps(1-4)]
  from Drop.hyps(5) have nw: "\<not> has_word event" by (simp add: has_word_def)
  from Drop.IH [OF nx(8) Drop.prems(2) covered_next(2) [OF Drop.prems(1,3) Drop.hyps(1-4) nw]]
    Drop.prems(4) Drop.hyps(6)
  show ?case by simp
qed

subsection \<open>The merge returns\<close>

lemma merge_loop_returns:
  "merge_inv fs tracks ct \<Longrightarrow> room tracks sg \<Longrightarrow>
   \<forall>j < length fs. \<forall>p < length (fs ! j). readable (fs ! j ! p) \<Longrightarrow>
     \<exists>song' hist'. merge_loop tracks ct sg hist = Inr (song', hist')"
proof (induction tracks ct sg hist rule: merge_loop_induct)
  case (Done tracks ct sg hist m)
  then show ?case by blast
next
  case (Null tracks ct sg hist m idx)
  with scan_tracks_open [of tracks INT_MAX m idx] show ?case by simp
next
  case (Close tracks ct sg hist m idx it)
  from Close.prems(2) tracks_remaining_close [OF Close.hyps(1,2)]
  have "room (tracks[nat idx := \<lparr>iter = None, absolute_time = m\<rparr>]) sg"
    by (simp add: room_def)
  from Close.IH [OF merge_inv_close [OF Close.prems(1) Close.hyps(1,2)] this Close.prems(3)]
    Close.hyps(5)
  show ?case by simp
next
  case (ReadFail tracks ct sg hist m idx it event it' e)
  note nx = merge_inv_next [OF ReadFail.prems(1) ReadFail.hyps(1-4)]
  from ReadFail.prems(3) nx(1,2,3) have "readable event" by simp
  with ReadFail.hyps(5) show ?case by (simp add: readable_def)
next
  case (Emit tracks ct sg hist m idx it event it' data)
  note nx = merge_inv_next [OF Emit.prems(1) Emit.hyps(1-4)]
  let ?sg = "sg\<lparr>native_events := (native_events sg)
                   [nat (num_events sg) :=
                      \<lparr>dwDeltaTime = word_of_int (m - ct), dwStreamID = 0, dwEvent = data\<rparr>],
                num_events := num_events sg + 1\<rparr>"
  from Emit.prems(2) tracks_remaining_next [OF Emit.hyps(1-4)]
  have "room (tracks[nat idx := \<lparr>iter = Some it', absolute_time = m\<rparr>]) ?sg"
    by (simp add: room_def nat_add_distrib)
  from Emit.IH [OF nx(7) this Emit.prems(3)] Emit.hyps(9)
  show ?case by simp
next
  case (Full tracks ct sg hist m idx it event it' data)
  from tracks_remaining_next [OF Full.hyps(1-4)] Full.prems(2) Full.hyps(7)
  show ?case by (auto simp: room_def)
next
  case (Drop tracks ct sg hist m idx it event it')
  note nx = merge_inv_next [OF Drop.prems(1) Drop.hyps(1-4)]
  from Drop.prems(2) tracks_remaining_next [OF Drop.hyps(1-4)]
  have "room (tracks[nat idx := \<lparr>iter = Some it', absolute_time = m\<rparr>]) sg"
    by (simp add: room_def)
  from Drop.IH [OF nx(8) this Drop.prems(3)] Drop.hyps(6)
  show ?case by simp
qed

section \<open>The claims on the merge\<close>

lemma MIDItoStream_emitted:
  assumes "times_fit file" and "0 \<le> num_events sg"
    and "MIDItoStream file sg = Inr (song', hist)"
  shows "emitted (file_tracks file) (native_events song') (nat (num_events sg)) 0 hist"
    and "num_events song' = num_events sg + int (length hist)"
proof -
  let ?sg = "sg\<lparr>native_events :=
               replicate (MIDI_NumEvents file) \<lparr>dwDeltaTime = 0, dwStreamID = 0, dwEvent = 0\<rparr>\<rparr>"
  from merge_loop_emitted [OF merge_inv_initial [OF assms(1)], of ?sg "[]" song' hist] assms(2,3)
  show "emitted (file_tracks file) (native_events song') (nat (num_events sg)) 0 hist"
    by (simp add: MIDItoStream_def)
  from merge_loop_history [of _ 0 ?sg "[]" song' hist] assms(3)
  show "num_events song' = num_events sg + int (length hist)"
    by (simp add: MIDItoStream_def)
qed

lemma MIDItoStream_nth:
  assumes "times_fit file" and "0 \<le> num_events sg"
    and "MIDItoStream file sg = Inr (song', hist)" and "k < length hist"
  shows "snd (snd (hist ! k)) = source_time file (hist ! k)"
    and "uint (dwDeltaTime (native_events song' ! (nat (num_events sg) + k)))
           = snd (snd (hist ! k)) - (if k = 0 then 0 else snd (snd (hist ! (k - 1))))"
    and "event_data (source_event file (hist ! k))
           = Inr (dwEvent (native_events song' ! (nat (num_events sg) + k)))"
    and "dwEvent (native_events song' ! (nat (num_events sg) + k)) \<noteq> 0"
    and "(\<Sum>i \<le> k. uint (dwDeltaTime (native_events song' ! (nat (num_events sg) + i))))
           = snd (snd (hist ! k))"
    and "nat (num_events sg) + k < length (native_events song')"
  using emitted_nth [OF MIDItoStream_emitted(1) [OF assms(1-3)] assms(4)]
  by (simp_all add: source_time_def source_event_def)

text \<open>
  C10. When the song's event count is 0 as the merge starts, no write of the merge
  leaves the output array, which has as many entries as the file reports events; the
  merge writes one entry for each event it emits and emits no more events than the
  file has. So it is after \<^verbatim>\<open>I_WIN_UnRegisterSong\<close>.
\<close>

theorem MIDItoStream_in_bounds:
  "num_events sg = 0 \<Longrightarrow>
     MIDItoStream file sg \<noteq> Inl WriteOutOfBounds
     \<and> MIDItoStream file (I_WIN_UnRegisterSong old) \<noteq> Inl WriteOutOfBounds
     \<and> (\<forall>song' hist. MIDItoStream file sg = Inr (song', hist) \<longrightarrow>
           length (native_events song') = MIDI_NumEvents file
           \<and> num_events song' = int (length hist)
           \<and> length hist \<le> MIDI_NumEvents file)"
proof (intro conjI allI impI)
  assume z: "num_events sg = 0"
  from MIDItoStream_room(1) [OF z] show "MIDItoStream file sg \<noteq> Inl WriteOutOfBounds" .
  have "num_events (I_WIN_UnRegisterSong old) = 0" by (simp add: I_WIN_UnRegisterSong_def)
  from MIDItoStream_room(1) [OF this]
  show "MIDItoStream file (I_WIN_UnRegisterSong old) \<noteq> Inl WriteOutOfBounds" .
  fix song' hist
  assume r: "MIDItoStream file sg = Inr (song', hist)"
  from MIDItoStream_room(2) [OF z r]
  show len: "length (native_events song') = MIDI_NumEvents file" by simp
  from merge_loop_history [of _ 0 _ "[]" song' hist] r z
  show n: "num_events song' = int (length hist)" by (simp add: MIDItoStream_def)
  from MIDItoStream_room(2) [OF z r] n show "length hist \<le> MIDI_NumEvents file" by simp
qed

theorem MIDItoStream_in_bounds_witness:
  "num_events empty_song = 0
   \<and> MIDItoStream example_file empty_song \<noteq> Inl WriteOutOfBounds
   \<and> MIDItoStream example_file (I_WIN_UnRegisterSong empty_song) \<noteq> Inl WriteOutOfBounds"
  using MIDItoStream_in_bounds [of empty_song example_file empty_song]
  by (simp add: empty_song_def)

text \<open>Without the precondition the merge does run past the array.\<close>

lemma MIDItoStream_overrun:
  "MIDItoStream example_file (empty_song\<lparr>num_events := 1\<rparr>) = Inl WriteOutOfBounds"
  by code_simp

lemma MIDItoStream_sorted:
  assumes "times_fit file" and "0 \<le> num_events sg"
    and "MIDItoStream file sg = Inr (song', hist)"
  shows "sorted (map (source_time file) hist)"
proof -
  have "map (source_time file) hist = map (\<lambda>h. snd (snd h)) hist"
    by (rule nth_equalityI) (simp_all add: MIDItoStream_nth(1) [OF assms])
  with emitted_sorted [OF MIDItoStream_emitted(1) [OF assms]] show ?thesis by (simp only:)
qed

lemma times_below_fit: "times_below file \<Longrightarrow> times_fit file"
  by (auto simp: times_below_def times_fit_def list_all_length intro: less_imp_le)

lemma MIDItoStream_order:
  assumes "times_fit file" and "0 \<le> num_events sg"
    and "MIDItoStream file sg = Inr (song', hist)" and "l < length hist" and "k < l"
  shows "before file (hist ! k) (hist ! l)"
proof -
  let ?ts = "map (\<lambda>i. \<lparr>iter = Some (MIDI_IterateTrack file i), absolute_time = 0\<rparr>)
               [0 ..< MIDI_NumTracks file]"
  have "order_inv ?ts 0 []" by (simp add: order_inv_def)
  from merge_loop_order [OF merge_inv_initial [OF assms(1)] this] assms(3,4,5)
  have "earlier (hist ! k) (hist ! l)" by (simp add: MIDItoStream_def)
  moreover from assms(4,5) have k: "k < length hist" by simp
  ultimately show ?thesis
    using MIDItoStream_nth(1) [OF assms(1-3) k] MIDItoStream_nth(1) [OF assms(1-4)]
    by (simp add: earlier_def before_def)
qed

lemma MIDItoStream_covers:
  assumes "times_below file" and "MIDItoStream file sg = Inr (song', hist)"
    and "i < length (file_tracks file)" and "p < length (file_tracks file ! i)"
    and "has_word (file_tracks file ! i ! p)"
  shows "\<exists>k < length hist. fst (hist ! k) = i \<and> fst (snd (hist ! k)) = p"
proof -
  let ?ts = "map (\<lambda>i. \<lparr>iter = Some (MIDI_IterateTrack file i), absolute_time = 0\<rparr>)
               [0 ..< MIDI_NumTracks file]"
  have c: "covered (file_tracks file) ?ts []"
    by (simp add: covered_def MIDI_NumTracks_def MIDI_IterateTrack_def)
  have b: "\<forall>j < length (file_tracks file).
             track_time (file_tracks file ! j) (length (file_tracks file ! j)) < INT_MAX"
    using assms(1) by (simp add: times_below_def list_all_length)
  from assms(2) have "merge_loop ?ts 0
      (sg\<lparr>native_events :=
            replicate (MIDI_NumEvents file) \<lparr>dwDeltaTime = 0, dwStreamID = 0, dwEvent = 0\<rparr>\<rparr>) []
        = Inr (song', hist)"
    by (simp add: MIDItoStream_def)
  from merge_loop_covers [OF merge_inv_initial [OF times_below_fit [OF assms(1)]] b c this]
    assms(3-5)
  obtain m where "(i, p, m) \<in> set hist" by blast
  then obtain k where "k < length hist" and "hist ! k = (i, p, m)"
    by (auto simp: in_set_conv_nth)
  then show ?thesis by auto
qed

lemma MIDItoStream_returns:
  assumes "times_fit file" and "num_events sg = 0" and "all_readable file"
  shows "\<exists>song' hist. MIDItoStream file sg = Inr (song', hist)"
proof -
  let ?ts = "map (\<lambda>i. \<lparr>iter = Some (MIDI_IterateTrack file i), absolute_time = 0\<rparr>)
               [0 ..< MIDI_NumTracks file]"
  let ?sg = "sg\<lparr>native_events :=
               replicate (MIDI_NumEvents file) \<lparr>dwDeltaTime = 0, dwStreamID = 0, dwEvent = 0\<rparr>\<rparr>"
  have r: "room ?ts ?sg"
    using assms(2) by (simp add: room_def tracks_remaining_initial)
  have a: "\<forall>j < length (file_tracks file). \<forall>p < length (file_tracks file ! j).
             readable (file_tracks file ! j ! p)"
    using assms(3) by (simp add: all_readable_def list_all_length)
  from merge_loop_returns [OF merge_inv_initial [OF assms(1)] r a, of "[]"]
  show ?thesis by (simp add: MIDItoStream_def)
qed

lemma example_result:
  "MIDItoStream example_file empty_song = Inr (example_song, example_hist)"
  by code_simp

lemma example_below: "times_below example_file"
  by code_simp

lemma example_readable: "all_readable example_file"
  by code_simp

text \<open>
  C1, for files in which every track ends before \<^verbatim>\<open>INT_MAX\<close> ticks. The merge writes one
  entry for each event of the source tracks that has a packed word, and no other entry.
  The entries stand in the order of the absolute times of their events, which never
  decrease; events of equal absolute time stand in the order of their tracks, the event
  of the track of lowest index first, and events of one track in their order in the
  track. On the file with track A at 0, 100, 100 and track B at 50, 100 the order is
  A@0, B@50, A@100, A@100, B@100, the two events of A at 100 in their order in the track.
  Started with the event count 0 on a file whose events the switch can read, the merge
  does return.
\<close>

theorem merge_order:
  "(times_below file \<and> 0 \<le> num_events sg \<and> MIDItoStream file sg = Inr (song', hist) \<longrightarrow>
      num_events song' = num_events sg + int (length hist)
      \<and> (\<forall>k < length hist.
            fst (hist ! k) < length (file_tracks file)
            \<and> fst (snd (hist ! k)) < length (file_tracks file ! fst (hist ! k))
            \<and> has_word (source_event file (hist ! k))
            \<and> event_data (source_event file (hist ! k))
                = Inr (dwEvent (native_events song' ! (nat (num_events sg) + k))))
      \<and> (\<forall>i < length (file_tracks file). \<forall>p < length (file_tracks file ! i).
            has_word (file_tracks file ! i ! p) \<longrightarrow>
              (\<exists>k < length hist. fst (hist ! k) = i \<and> fst (snd (hist ! k)) = p))
      \<and> sorted (map (source_time file) hist)
      \<and> (\<forall>l < length hist. \<forall>k < l. before file (hist ! k) (hist ! l)))
   \<and> (times_below file \<and> num_events sg = 0 \<and> all_readable file \<longrightarrow>
        (\<exists>song' hist. MIDItoStream file sg = Inr (song', hist)))
   \<and> MIDItoStream example_file empty_song = Inr (example_song, example_hist)"
proof (intro conjI impI allI)
  assume a: "times_below file \<and> 0 \<le> num_events sg \<and> MIDItoStream file sg = Inr (song', hist)"
  then have b: "times_below file" and n: "0 \<le> num_events sg"
    and r: "MIDItoStream file sg = Inr (song', hist)"
    by simp_all
  note f = times_below_fit [OF b]
  from MIDItoStream_emitted(2) [OF f n r]
  show "num_events song' = num_events sg + int (length hist)" .
  from MIDItoStream_sorted [OF f n r] show "sorted (map (source_time file) hist)" .
  { fix k
    assume k: "k < length hist"
    note e = emitted_nth [OF MIDItoStream_emitted(1) [OF f n r] k]
    from e show "fst (hist ! k) < length (file_tracks file)" by simp
    from e show "fst (snd (hist ! k)) < length (file_tracks file ! fst (hist ! k))" by simp
    from e show "event_data (source_event file (hist ! k))
                = Inr (dwEvent (native_events song' ! (nat (num_events sg) + k)))"
      by (simp add: source_event_def)
    with e show "has_word (source_event file (hist ! k))"
      by (simp add: has_word_def) }
  { fix i p
    assume "i < length (file_tracks file)" and "p < length (file_tracks file ! i)"
      and "has_word (file_tracks file ! i ! p)"
    then show "\<exists>k < length hist. fst (hist ! k) = i \<and> fst (snd (hist ! k)) = p"
      by (rule MIDItoStream_covers [OF b r]) }
  { fix l k
    assume "l < length hist" and "k < l"
    then show "before file (hist ! k) (hist ! l)" by (rule MIDItoStream_order [OF f n r]) }
next
  assume "times_below file \<and> num_events sg = 0 \<and> all_readable file"
  then show "\<exists>song' hist. MIDItoStream file sg = Inr (song', hist)"
    using MIDItoStream_returns [OF times_below_fit] by blast
next
  show "MIDItoStream example_file empty_song = Inr (example_song, example_hist)"
    by (rule example_result)
qed

lemma example_hist_length: "length example_hist = 5"
  by (simp add: example_hist_def)

lemma example_hist_nth:
  "example_hist ! 1 = (1, 0, 50)" "example_hist ! 2 = (0, 1, 100)"
  "example_hist ! 3 = (0, 2, 100)" "example_hist ! 4 = (1, 1, 100)"
  by (simp_all add: example_hist_def)

theorem merge_order_witness:
  "times_below example_file \<and> 0 \<le> num_events empty_song
   \<and> num_events empty_song = 0 \<and> all_readable example_file
   \<and> MIDItoStream example_file empty_song = Inr (example_song, example_hist)
   \<and> num_events example_song = num_events empty_song + 5
   \<and> sorted (map (source_time example_file) example_hist)
   \<and> before example_file (1, 0, 50) (0, 1, 100)
   \<and> before example_file (0, 1, 100) (0, 2, 100)
   \<and> before example_file (0, 2, 100) (1, 1, 100)
   \<and> has_word (source_event example_file (1, 1, 100))
   \<and> (\<exists>k < length example_hist. fst (example_hist ! k) = 1 \<and> fst (snd (example_hist ! k)) = 1)"
proof -
  have n: "0 \<le> num_events empty_song" and z: "num_events empty_song = 0"
    by (simp_all add: empty_song_def)
  note t = merge_order [of example_file empty_song example_song example_hist]
  from t example_below n have
    c: "num_events example_song = num_events empty_song + int (length example_hist)"
    and s: "sorted (map (source_time example_file) example_hist)"
    and w: "\<forall>k < length example_hist. has_word (source_event example_file (example_hist ! k))"
    and a: "\<forall>i < length (file_tracks example_file). \<forall>p < length (file_tracks example_file ! i).
            has_word (file_tracks example_file ! i ! p) \<longrightarrow>
              (\<exists>k < length example_hist. fst (example_hist ! k) = i
                  \<and> fst (snd (example_hist ! k)) = p)"
    and o: "\<forall>l < length example_hist. \<forall>k < l.
              before example_file (example_hist ! k) (example_hist ! l)"
    by blast+
  from c have c': "num_events example_song = num_events empty_song + 5"
    by (simp add: example_hist_length)
  from o have o1: "before example_file (1, 0, 50) (0, 1, 100)"
    and o2: "before example_file (0, 1, 100) (0, 2, 100)"
    and o3: "before example_file (0, 2, 100) (1, 1, 100)"
    using example_hist_nth
      spec [OF o, of 2, THEN mp, THEN spec, of 1]
      spec [OF o, of 3, THEN mp, THEN spec, of 2]
      spec [OF o, of 4, THEN mp, THEN spec, of 3]
    by (simp_all add: example_hist_length)
  from w have w4: "has_word (source_event example_file (1, 1, 100))"
    using spec [OF w, of 4] example_hist_nth by (simp add: example_hist_length)
  have "has_word (file_tracks example_file ! 1 ! 1)"
    using w4 by (simp add: source_event_def)
  moreover have "(1 :: nat) < length (file_tracks example_file)"
    "(1 :: nat) < length (file_tracks example_file ! 1)"
    by (simp_all add: example_file_def)
  ultimately have e: "\<exists>k < length example_hist. fst (example_hist ! k) = 1
      \<and> fst (snd (example_hist ! k)) = 1"
    using a by blast
  from example_below n z example_readable t c' s o1 o2 o3 w4 e show ?thesis by blast
qed

text \<open>
  As C1 is stated, for every file, it fails: on \<open>overflow_file\<close> the ninth event of the
  first track, at \<open>9 * (2 ^ 28 - 1)\<close> ticks, is written before the eighth and ninth of
  the second track, which stand at \<open>8 * (2 ^ 28 - 1)\<close>.
\<close>

theorem merge_order_overflow:
  "case MIDItoStream overflow_file empty_song of
     Inr (song', hist) \<Rightarrow> \<not> sorted (map (source_time overflow_file) hist)
   | Inl e \<Rightarrow> False"
  by code_simp

text \<open>
  The bound is strict. When the tracks of \<open>boundary_file\<close> stand before their last
  events, at \<^verbatim>\<open>INT_MAX\<close> exactly, the scan takes neither, and the merge ends with 16 of
  the 18 events written.
\<close>

lemma merge_stops_at_INT_MAX:
  "times_fit boundary_file \<and> MIDI_NumEvents boundary_file = 18
   \<and> (case MIDItoStream boundary_file empty_song of
        Inl e \<Rightarrow> False
      | Inr (song', hist) \<Rightarrow> num_events song' = 16)"
  by code_simp

text \<open>
  C2, for files whose times fit an \<^verbatim>\<open>int\<close>. The merge writes one entry for each event
  it emits, each the packed word of an event of a source track, none for an event
  without one. The delta time of an entry is the absolute time of its event less that of
  the event of the entry before (less 0 for the first), and the delta times up to an
  entry add up to the absolute time of its event.
\<close>

theorem merge_deltas:
  "times_fit file \<Longrightarrow> 0 \<le> num_events sg \<Longrightarrow>
   MIDItoStream file sg = Inr (song', hist) \<Longrightarrow> k < length hist \<Longrightarrow>
     num_events song' = num_events sg + int (length hist)
     \<and> (\<Sum>i \<le> k. uint (dwDeltaTime (native_events song' ! (nat (num_events sg) + i))))
         = source_time file (hist ! k)
     \<and> uint (dwDeltaTime (native_events song' ! (nat (num_events sg) + k)))
         = source_time file (hist ! k)
           - (if k = 0 then 0 else source_time file (hist ! (k - 1)))
     \<and> event_data (source_event file (hist ! k))
         = Inr (dwEvent (native_events song' ! (nat (num_events sg) + k)))
     \<and> dwEvent (native_events song' ! (nat (num_events sg) + k)) \<noteq> 0"
proof -
  assume f: "times_fit file" and n: "0 \<le> num_events sg"
    and r: "MIDItoStream file sg = Inr (song', hist)" and k: "k < length hist"
  note nth = MIDItoStream_nth [OF f n r]
  have prev: "k \<noteq> 0 \<Longrightarrow> snd (snd (hist ! (k - 1))) = source_time file (hist ! (k - 1))"
    using nth(1) [of "k - 1"] k by simp
  from MIDItoStream_emitted(2) [OF f n r] nth(1,2,3,4,5) [OF k] prev
  show ?thesis by simp
qed

lemma dropping_merge:
  "MIDItoStream dropping_file empty_song = Inr (dropping_song, dropping_hist)"
  by code_simp

lemma dropping_fits: "times_fit dropping_file"
  by code_simp

lemma dropping_time: "source_time dropping_file (dropping_hist ! 2) = 100"
  by code_simp

theorem merge_deltas_witness:
  "times_fit dropping_file \<and> 0 \<le> num_events empty_song
   \<and> MIDItoStream dropping_file empty_song = Inr (dropping_song, dropping_hist)
   \<and> 2 < length dropping_hist
   \<and> (\<Sum>i \<le> 2. uint (dwDeltaTime
          (native_events dropping_song ! (nat (num_events empty_song) + i)))) = 100
   \<and> event_data (source_event dropping_file (dropping_hist ! 2))
       = Inr (dwEvent (native_events dropping_song ! (nat (num_events empty_song) + 2)))"
proof -
  have n: "0 \<le> num_events empty_song" by (simp add: empty_song_def)
  have k: "2 < length dropping_hist" by (simp add: dropping_hist_def)
  from merge_deltas [OF dropping_fits n dropping_merge k] dropping_time
  have "(\<Sum>i \<le> 2. uint (dwDeltaTime
          (native_events dropping_song ! (nat (num_events empty_song) + i)))) = 100"
    and "event_data (source_event dropping_file (dropping_hist ! 2))
       = Inr (dwEvent (native_events dropping_song ! (nat (num_events empty_song) + 2)))"
    by simp_all
  with dropping_fits n dropping_merge k show ?thesis by blast
qed

text \<open>
  As C2 is stated, for every file, it fails on \<open>overflow_file\<close>: the delta times of the
  first 17 entries add up to more than the absolute time of the event of the 17th.
\<close>

theorem merge_deltas_overflow:
  "case MIDItoStream overflow_file empty_song of
     Inr (song', hist) \<Rightarrow>
       sum_list (map (\<lambda>e. uint (dwDeltaTime e)) (take 17 (native_events song')))
         \<noteq> source_time overflow_file (hist ! 16)
   | Inl e \<Rightarrow> False"
  by code_simp

section \<open>Rounding to single precision is monotone\<close>

lemma pow2_le_of_nat: "2 ^ k \<le> n \<Longrightarrow> (2 :: rat) ^ k \<le> rat_of_nat n"
proof -
  assume "2 ^ k \<le> n"
  then have "rat_of_nat (2 ^ k) \<le> rat_of_nat n" by (simp only: of_nat_le_iff)
  then show ?thesis by simp
qed

lemma of_nat_less_pow2: "n < 2 ^ k \<Longrightarrow> rat_of_nat n + 1 \<le> 2 ^ k"
proof -
  assume "n < 2 ^ k"
  then have "Suc n \<le> 2 ^ k" by simp
  then have "rat_of_nat (Suc n) \<le> rat_of_nat (2 ^ k)" by (simp only: of_nat_le_iff)
  then show ?thesis by simp
qed

lemma ilog2_bounds:
  assumes "0 < x"
  shows "2 powi ilog2 x \<le> x" and "x < 2 powi (ilog2 x + 1)"
proof -
  have "2 powi ilog2 x \<le> x \<and> x < 2 powi (ilog2 x + 1)"
  proof (cases "1 \<le> x")
    case True
    let ?n = "nat \<lfloor>x\<rfloor>" and ?k = "floorlog 2 (nat \<lfloor>x\<rfloor>)"
    from True have n: "0 < ?n" by simp
    from floorlog_bounds [OF n, of 2] have b: "2 ^ (?k - 1) \<le> ?n" "?n < 2 ^ ?k" by simp_all
    from n floorlog_eq_zero_iff [of 2 ?n] have k: "0 < ?k" by (cases ?k) auto
    have i: "ilog2 x = int (?k - 1)" using True k by (simp add: ilog2_def of_nat_diff)
    have fl: "rat_of_nat ?n = of_int \<lfloor>x\<rfloor>" using True by simp
    have nx: "rat_of_nat ?n \<le> x" unfolding fl by simp
    have xn: "x < rat_of_nat ?n + 1" unfolding fl by linarith
    from pow2_le_of_nat [OF b(1)] nx have lo: "2 ^ (?k - 1) \<le> x" by (rule order_trans)
    from xn of_nat_less_pow2 [OF b(2)] have hi: "x < 2 ^ ?k" by (rule less_le_trans)
    have "int (?k - 1) + 1 = int ?k" using k by simp
    then have "(2 :: rat) powi (int (?k - 1) + 1) = 2 ^ ?k" by simp
    with lo hi i show ?thesis by simp
  next
    case False
    let ?c = "\<lceil>1 / x\<rceil>"
    let ?n = "nat (?c - 1)" and ?k = "floorlog 2 (nat (?c - 1))"
    from False assms have y: "1 < 1 / x" by simp
    then have c: "2 \<le> ?c" by (simp add: le_ceiling_iff)
    then have n: "0 < ?n" by simp
    from floorlog_bounds [OF n, of 2] have b: "2 ^ (?k - 1) \<le> ?n" "?n < 2 ^ ?k" by simp_all
    from n floorlog_eq_zero_iff [of 2 ?n] have k: "0 < ?k" by (cases ?k) auto
    have i: "ilog2 x = - int ?k" using False by (simp add: ilog2_def)
    from c have "0 \<le> ?c - 1" by linarith
    from of_nat_nat [OF this, where ?'a = rat] have fl: "rat_of_nat ?n = of_int ?c - 1" by simp
    have ny: "rat_of_nat ?n < 1 / x" unfolding fl by linarith
    have yn: "1 / x \<le> rat_of_nat ?n + 1" unfolding fl by simp
    from pow2_le_of_nat [OF b(1)] ny have "2 ^ (?k - 1) < 1 / x" by (rule le_less_trans)
    with assms have "x * 2 ^ (?k - 1) < 1" by (simp add: field_simps)
    then have hi: "x < 1 / 2 ^ (?k - 1)" by (simp add: field_simps)
    from yn of_nat_less_pow2 [OF b(2)] have "1 / x \<le> 2 ^ ?k" by (rule order_trans)
    with assms have "1 \<le> x * 2 ^ ?k" by (simp add: field_simps)
    then have lo: "1 / 2 ^ ?k \<le> x" by (simp add: field_simps)
    have e: "- int ?k + 1 = - int (?k - 1)" using k by simp
    have "(2 :: rat) powi (- int ?k) = 1 / 2 ^ ?k"
      by (simp add: power_int_minus field_simps)
    moreover have "(2 :: rat) powi (- int ?k + 1) = 1 / 2 ^ (?k - 1)"
      unfolding e by (simp add: power_int_minus field_simps)
    ultimately show ?thesis using lo hi i by simp
  qed
  then show "2 powi ilog2 x \<le> x" and "x < 2 powi (ilog2 x + 1)" by simp_all
qed

lemma ilog2_mono:
  assumes "0 < x" and "x \<le> y"
  shows "ilog2 x \<le> ilog2 y"
proof (rule ccontr)
  assume "\<not> ilog2 x \<le> ilog2 y"
  then have "ilog2 y + 1 \<le> ilog2 x" by simp
  then have "(2 :: rat) powi (ilog2 y + 1) \<le> 2 powi ilog2 x"
    by (intro power_int_increasing) simp_all
  also have "\<dots> \<le> x" using ilog2_bounds(1) [OF assms(1)] .
  also have "\<dots> \<le> y" by fact
  also have "\<dots> < 2 powi (ilog2 y + 1)" using ilog2_bounds(2) [of y] assms by simp
  finally show False by simp
qed

lemma round_even_floor: "\<lfloor>q\<rfloor> \<le> round_even q" "round_even q \<le> \<lfloor>q\<rfloor> + 1"
  by (simp_all add: round_even_def Let_def)

lemma round_even_of_int [simp]: "round_even (of_int n) = n"
  by (simp add: round_even_def)

lemma round_even_mono:
  assumes "q \<le> q'"
  shows "round_even q \<le> round_even q'"
proof (cases "\<lfloor>q\<rfloor> = \<lfloor>q'\<rfloor>")
  case True
  with assms show ?thesis
    by (auto simp: round_even_def Let_def)
next
  case False
  with assms have "\<lfloor>q\<rfloor> < \<lfloor>q'\<rfloor>" using floor_mono [OF assms] by simp
  with round_even_floor(2) [of q] round_even_floor(1) [of q'] show ?thesis by simp
qed

lemma f32_zero [simp]: "f32 0 = 0"
  by (simp add: f32_def)

lemma scaled_bounds:
  assumes "0 < x"
  shows "x / 2 powi ulp_exp x < 2 ^ 24"
    and "- 149 < ulp_exp x \<Longrightarrow> 2 ^ 23 \<le> x / 2 powi ulp_exp x"
proof -
  have p: "(0 :: rat) < 2 powi e" for e by simp
  have "x < 2 powi (ilog2 x + 1)" by (rule ilog2_bounds(2) [OF assms])
  also have "\<dots> \<le> 2 powi (ulp_exp x + 24)"
    using assms by (intro power_int_increasing) (simp_all add: ulp_exp_def)
  also have "\<dots> = 2 powi ulp_exp x * 2 ^ 24"
    by (simp add: power_int_add)
  finally show "x / 2 powi ulp_exp x < 2 ^ 24"
    by (simp add: field_simps)
  assume "- 149 < ulp_exp x"
  with assms have e: "ulp_exp x = ilog2 x - 23" by (simp add: ulp_exp_def max_def split: if_splits)
  have "(2 :: rat) powi ulp_exp x * 2 ^ 23 = 2 powi (ulp_exp x + 23)"
    by (simp add: power_int_add)
  also have "\<dots> = 2 powi ilog2 x" using e by simp
  also have "\<dots> \<le> x" by (rule ilog2_bounds(1) [OF assms])
  finally show "2 ^ 23 \<le> x / 2 powi ulp_exp x"
    by (simp add: field_simps)
qed

lemma f32_pos:
  assumes "0 < x"
  shows "f32 x = of_int (round_even (x / 2 powi ulp_exp x)) * 2 powi ulp_exp x"
  using assms by (simp add: f32_def)

lemma f32_mono_pos:
  assumes "0 < x" and "x \<le> y"
  shows "f32 x \<le> f32 y"
proof -
  from assms have y: "0 < y" by simp
  let ?ex = "ulp_exp x" and ?ey = "ulp_exp y"
  have le: "?ex \<le> ?ey"
    using ilog2_mono [OF assms] assms y by (simp add: ulp_exp_def)
  show ?thesis
  proof (cases "?ex = ?ey")
    case True
    have "x / 2 powi ?ex \<le> y / 2 powi ?ex"
      using assms(2) by (simp add: divide_right_mono)
    from round_even_mono [OF this]
    have "rat_of_int (round_even (x / 2 powi ?ex)) \<le> of_int (round_even (y / 2 powi ?ex))"
      by simp
    then have "of_int (round_even (x / 2 powi ?ex)) * 2 powi ?ex
                 \<le> of_int (round_even (y / 2 powi ?ex)) * (2 :: rat) powi ?ex"
      by (intro mult_right_mono) simp_all
    with True show ?thesis by (simp add: f32_pos assms(1) y)
  next
    case False
    with le have "?ex < ?ey" by simp
    moreover have "- 149 \<le> ?ex" by (simp add: ulp_exp_def)
    ultimately have lt: "?ex + 1 \<le> ?ey" and ny: "- 149 < ?ey"
      by simp_all
    have "round_even (x / 2 powi ?ex) \<le> round_even (of_int (2 ^ 24))"
      using scaled_bounds(1) [OF assms(1)] by (intro round_even_mono) simp
    then have "rat_of_int (round_even (x / 2 powi ?ex)) \<le> 2 ^ 24"
      by (simp only: round_even_of_int) (metis of_int_le_iff of_int_numeral of_int_power)
    then have "f32 x \<le> 2 ^ 24 * 2 powi ?ex"
      by (simp add: f32_pos assms(1) mult_right_mono)
    also have "\<dots> = 2 ^ 23 * 2 powi (?ex + 1)"
      by (simp add: power_int_add)
    also have "\<dots> \<le> 2 ^ 23 * 2 powi ?ey"
      using lt by (intro mult_left_mono power_int_increasing) simp_all
    also have "\<dots> \<le> f32 y"
    proof -
      have "round_even (of_int (2 ^ 23)) \<le> round_even (y / 2 powi ?ey)"
        using scaled_bounds(2) [OF y ny] by (intro round_even_mono) simp
      then have "2 ^ 23 \<le> rat_of_int (round_even (y / 2 powi ?ey))"
        by (simp only: round_even_of_int) (metis of_int_le_iff of_int_numeral of_int_power)
      then show ?thesis by (simp add: f32_pos y mult_right_mono)
    qed
    finally show ?thesis .
  qed
qed

lemma f32_nonneg: "0 \<le> x \<Longrightarrow> 0 \<le> f32 x"
proof -
  assume "0 \<le> x"
  have "0 \<le> round_even (x / 2 powi ulp_exp x)"
    using round_even_floor(1) [of "x / 2 powi ulp_exp x"] \<open>0 \<le> x\<close>
    by (smt (verit) divide_nonneg_pos zero_le_floor zero_less_numeral zero_less_power_int)
  with \<open>0 \<le> x\<close> show ?thesis by (simp add: f32_def sgn_if)
qed

lemma f32_mono: "0 \<le> x \<Longrightarrow> x \<le> y \<Longrightarrow> f32 x \<le> f32 y"
  using f32_mono_pos [of x y] f32_nonneg [of y] by (cases "x = 0") simp_all

section \<open>The end of a song that does not loop\<close>

lemma FillBuffer_at_end:
  assumes "\<not> looping (song st)" and "num_events (song st) \<le> position (song st)"
  shows "FillBuffer st = Inr (st\<lparr>buffer_num_events := 0\<rparr>)"
  using assms by (simp add: FillBuffer_def FillBuffer_loop.simps [of 0] STREAM_MAX_EVENTS_def)

lemma StreamOut_nothing: "buffer_num_events st = 0 \<Longrightarrow> StreamOut mmr st = st"
  by (simp add: StreamOut_def)

lemma fill_and_stream_at_end:
  assumes "\<not> looping (song st)" and "num_events (song st) \<le> position (song st)"
  shows "fill_and_stream mmr st = Inr (st\<lparr>buffer_num_events := 0\<rparr>)"
  by (simp add: fill_and_stream_def FillBuffer_at_end [OF assms] StreamOut_nothing)

lemma fill_and_stream_all_at_end:
  assumes "\<not> looping (song st)" and "num_events (song st) \<le> position (song st)"
    and "mmrs \<noteq> []"
  shows "fill_and_stream_all mmrs st = Inr (st\<lparr>buffer_num_events := 0\<rparr>)"
  using assms
proof (induction mmrs arbitrary: st)
  case Nil
  then show ?case by simp
next
  case (Cons mmr rest)
  let ?st = "st\<lparr>buffer_num_events := 0\<rparr>"
  have a: "\<not> looping (song ?st)" "num_events (song ?st) \<le> position (song ?st)"
    using Cons.prems by simp_all
  show ?case
  proof (cases "rest = []")
    case True
    with Cons.prems show ?thesis by (simp add: fill_and_stream_at_end)
  next
    case False
    from Cons.IH [OF a False] Cons.prems show ?thesis
      by (simp add: fill_and_stream_at_end)
  qed
qed

text \<open>
  C6. With looping off and the cursor at (or beyond) the event count, a fill leaves 0
  in the buffer's count and changes nothing else, the cursor included; \<^verbatim>\<open>StreamOut\<close> on
  a count of 0 makes no call on the device; and so it stays, however many fills follow.
\<close>

theorem end_of_song:
  "\<not> looping (song st) \<Longrightarrow> num_events (song st) \<le> position (song st) \<Longrightarrow>
     FillBuffer st = Inr (st\<lparr>buffer_num_events := 0\<rparr>)
     \<and> StreamOut mmr (st\<lparr>buffer_num_events := 0\<rparr>) = st\<lparr>buffer_num_events := 0\<rparr>
     \<and> (\<forall>st'. buffer_num_events st' = 0 \<longrightarrow> device (StreamOut mmr st') = device st')
     \<and> (\<forall>mmrs st'. mmrs \<noteq> [] \<and> fill_and_stream_all mmrs st = Inr st' \<longrightarrow>
           buffer_num_events st' = 0 \<and> position (song st') = position (song st)
           \<and> device st' = device st)"
proof (intro conjI allI impI)
  assume a: "\<not> looping (song st)" "num_events (song st) \<le> position (song st)"
  from FillBuffer_at_end [OF a] show "FillBuffer st = Inr (st\<lparr>buffer_num_events := 0\<rparr>)" .
  show "StreamOut mmr (st\<lparr>buffer_num_events := 0\<rparr>) = st\<lparr>buffer_num_events := 0\<rparr>"
    by (simp add: StreamOut_nothing)
  { fix st' :: music_state
    assume "buffer_num_events st' = 0"
    then show "device (StreamOut mmr st') = device st'" by (simp add: StreamOut_nothing) }
  fix mmrs st'
  assume b: "mmrs \<noteq> [] \<and> fill_and_stream_all mmrs st = Inr st'"
  with fill_and_stream_all_at_end [OF a, of mmrs] have "st' = st\<lparr>buffer_num_events := 0\<rparr>"
    by simp
  then show "buffer_num_events st' = 0" and "position (song st') = position (song st)"
    and "device st' = device st"
    by simp_all
qed

theorem end_of_song_witness:
  "\<not> looping (song ended_state)
   \<and> num_events (song ended_state) \<le> position (song ended_state)
   \<and> FillBuffer ended_state = Inr (ended_state\<lparr>buffer_num_events := 0\<rparr>)
   \<and> fill_and_stream_all [0, 0] ended_state = Inr (ended_state\<lparr>buffer_num_events := 0\<rparr>)
   \<and> device (ended_state\<lparr>buffer_num_events := 0\<rparr>) = device ended_state"
proof -
  have a: "\<not> looping (song ended_state)"
    "num_events (song ended_state) \<le> position (song ended_state)"
    by (simp_all add: ended_state_def)
  have f: "fill_and_stream_all [0, 0] ended_state = Inr (ended_state\<lparr>buffer_num_events := 0\<rparr>)"
    by (rule fill_and_stream_all_at_end [OF a]) simp
  from end_of_song [OF a, of 0] f a show ?thesis by simp
qed

section \<open>The volume curve\<close>

lemma volume_correction_length: "length volume_correction = 128"
  by (simp add: volume_correction_def)

lemma volume_correction_sorted: "sorted volume_correction"
  by (simp add: volume_correction_def)

lemma volume_correction_range: "list_all (\<lambda>v. 0 \<le> v \<and> v \<le> 127) volume_correction"
  by (simp add: volume_correction_def)

lemma f32_127: "f32 127 = 127"
  by code_simp

lemma f32_of_int_range:
  assumes "0 \<le> v" and "v \<le> 127"
  shows "0 \<le> f32 (of_int v)" and "f32 (of_int v) \<le> 127"
proof -
  from assms(1) show "0 \<le> f32 (of_int v)" by (simp add: f32_nonneg)
  have "f32 (of_int v) \<le> f32 127" using assms by (intro f32_mono) simp_all
  then show "f32 (of_int v) \<le> 127" by (simp add: f32_127)
qed

lemma scaled_volume_range:
  assumes "0 \<le> factor" and "factor \<le> 1" and "0 \<le> v" and "v \<le> 127"
  shows "0 \<le> scaled_volume factor v" and "scaled_volume factor v \<le> 127"
proof -
  note r = f32_of_int_range [OF assms(3,4)]
  have p: "0 \<le> f32 (of_int v) * factor" using r(1) assms(1) by simp
  have "f32 (of_int v) * factor \<le> 127 * 1"
    using r assms(1,2) by (intro mult_mono) simp_all
  then have "f32 (f32 (of_int v) * factor) \<le> f32 127"
    using p by (intro f32_mono) simp_all
  then have le: "f32 (f32 (of_int v) * factor) \<le> 127" by (simp add: f32_127)
  have ge: "0 \<le> f32 (f32 (of_int v) * factor)" using p by (rule f32_nonneg)
  from ge show "0 \<le> scaled_volume factor v" by (simp add: scaled_volume_def float_to_int_def)
  from ge le show "scaled_volume factor v \<le> 127"
    by (simp add: scaled_volume_def float_to_int_def floor_le_iff)
qed

lemma scaled_volume_mono:
  assumes "0 \<le> factor" and "0 \<le> v" and "v \<le> w"
  shows "scaled_volume factor v \<le> scaled_volume factor w"
proof -
  have a: "0 \<le> f32 (of_int v)" using assms(2) by (simp add: f32_nonneg)
  have "f32 (of_int v) \<le> f32 (of_int w)" using assms(2,3) by (intro f32_mono) simp_all
  then have "f32 (of_int v) * factor \<le> f32 (of_int w) * factor"
    using assms(1) by (rule mult_right_mono)
  moreover have "0 \<le> f32 (of_int v) * factor" using a assms(1) by simp
  ultimately have m: "f32 (f32 (of_int v) * factor) \<le> f32 (f32 (of_int w) * factor)"
    by (intro f32_mono)
  have "0 \<le> f32 (f32 (of_int v) * factor)" using a assms(1) by (intro f32_nonneg) simp
  with m show ?thesis
    by (simp add: scaled_volume_def float_to_int_def floor_mono)
qed

lemma scaled_volume_zero: "scaled_volume 0 v = 0"
  by (simp add: scaled_volume_def float_to_int_def)

lemma volume_correction_at_range:
  assumes "0 \<le> i" and "i \<le> 127"
  shows "\<exists>v. volume_correction_at i = Inr v \<and> 0 \<le> v \<and> v \<le> 127"
proof -
  from assms have "nat i < length volume_correction" by (simp add: volume_correction_length)
  with volume_correction_range have "0 \<le> volume_correction ! nat i \<and> volume_correction ! nat i \<le> 127"
    by (simp add: list_all_length)
  with assms show ?thesis by (simp add: volume_correction_at_def)
qed

lemma volume_correction_at_mono:
  assumes "0 \<le> i" and "i \<le> j" and "j \<le> 127"
  shows "\<exists>a b. volume_correction_at i = Inr a \<and> volume_correction_at j = Inr b \<and> a \<le> b"
proof -
  from assms have "nat i \<le> nat j" "nat j < length volume_correction"
    by (simp_all add: volume_correction_length)
  from sorted_nth_mono [OF volume_correction_sorted this] assms show ?thesis
    by (simp add: volume_correction_at_def)
qed

text \<open>
  C8. The table has 128 entries and never decreases; so, at a scale factor from 0 to 1,
  the corrected volume (the table read at the scaled volume, which is then an index of the
  table) never decreases as the linear volume goes up from 0 to 127.
\<close>

theorem volume_curve_monotone:
  "length volume_correction = 128
   \<and> (i \<le> j \<and> j < 128 \<longrightarrow> volume_correction ! i \<le> volume_correction ! j)
   \<and> (0 \<le> factor \<and> factor \<le> 1 \<and> 0 \<le> v \<and> v \<le> w \<and> w \<le> 127 \<longrightarrow>
        (\<exists>a b. volume_correction_at (scaled_volume factor v) = Inr a
               \<and> volume_correction_at (scaled_volume factor w) = Inr b \<and> a \<le> b))"
proof (intro conjI impI)
  show "length volume_correction = 128" by (rule volume_correction_length)
  { assume "i \<le> j \<and> j < 128"
    then have "i \<le> j" "j < length volume_correction" by (simp_all add: volume_correction_length)
    from sorted_nth_mono [OF volume_correction_sorted this]
    show "volume_correction ! i \<le> volume_correction ! j" . }
  assume a: "0 \<le> factor \<and> factor \<le> 1 \<and> 0 \<le> v \<and> v \<le> w \<and> w \<le> 127"
  then have "0 \<le> scaled_volume factor v" by (intro scaled_volume_range) simp_all
  moreover from a have "scaled_volume factor v \<le> scaled_volume factor w"
    by (intro scaled_volume_mono) simp_all
  moreover from a have "scaled_volume factor w \<le> 127" by (intro scaled_volume_range) simp_all
  ultimately show "\<exists>a b. volume_correction_at (scaled_volume factor v) = Inr a
               \<and> volume_correction_at (scaled_volume factor w) = Inr b \<and> a \<le> b"
    by (rule volume_correction_at_mono)
qed

lemma curve_example:
  "volume_correction_at (scaled_volume (1 / 2) 10) = Inr 14"
  "volume_correction_at (scaled_volume (1 / 2) 100) = Inr 42"
  by code_simp+

theorem volume_curve_monotone_witness:
  "(3 :: nat) \<le> 100 \<and> (100 :: nat) < 128 \<and> volume_correction ! 3 \<le> volume_correction ! 100
   \<and> (0 :: rat) \<le> 1 / 2 \<and> (1 / 2 :: rat) \<le> 1 \<and> (0 :: int) \<le> 10 \<and> (10 :: int) \<le> 100
   \<and> (100 :: int) \<le> 127
   \<and> volume_correction_at (scaled_volume (1 / 2) 10) = Inr 14
   \<and> volume_correction_at (scaled_volume (1 / 2) 100) = Inr 42
   \<and> (14 :: int) \<le> 42"
proof -
  have "volume_correction ! 3 \<le> volume_correction ! 100"
    using volume_curve_monotone [of 3 100 "1 / 2" 10 100] by simp
  with curve_example show ?thesis by simp
qed

section \<open>Muting\<close>

lemma send_volumes_muted:
  "volume_factor st = 0 \<Longrightarrow>
     send_volumes chans st =
       Inr (st\<lparr>device := device st @ map (\<lambda>i. MidiOutShortMsg (volume_message i 0)) chans\<rparr>)"
proof (induction chans arbitrary: st)
  case Nil
  then show ?case by simp
next
  case (Cons i chans)
  have "volume_correction_at 0 = Inr 0"
    by (simp add: volume_correction_at_def volume_correction_def)
  with Cons.prems Cons.IH [of "st\<lparr>device := device st @ [MidiOutShortMsg (volume_message i 0)]\<rparr>"]
  show ?case by (simp add: scaled_volume_zero)
qed

lemma muted_messages:
  "map (\<lambda>i. MIDIEVENT_VOLUME (volume_message i 0)) [0 ..< MIDI_CHANNELS_PER_TRACK]
     = replicate MIDI_CHANNELS_PER_TRACK 0"
  "map (\<lambda>i. MIDIEVENT_CHANNEL (volume_message i 0)) [0 ..< MIDI_CHANNELS_PER_TRACK]
     = map of_nat [0 ..< MIDI_CHANNELS_PER_TRACK]"
  "map (\<lambda>i. MIDIEVENT_TYPE (volume_message i 0)) [0 ..< MIDI_CHANNELS_PER_TRACK]
     = replicate MIDI_CHANNELS_PER_TRACK (event_type_code MIDI_EVENT_CONTROLLER)"
  "map (\<lambda>i. MIDIEVENT_DATA1 (volume_message i 0)) [0 ..< MIDI_CHANNELS_PER_TRACK]
     = replicate MIDI_CHANNELS_PER_TRACK MIDI_CONTROLLER_MAIN_VOLUME"
  by code_simp+

text \<open>
  C7. \<^verbatim>\<open>I_WIN_SetMusicVolume(0)\<close> sets the scale factor to 0, whatever it was and whatever
  \<^verbatim>\<open>SND_MAXVOLUME\<close> is, and sends one message for each of the 16 channels, in their
  order: a main volume controller message of volume 0, whatever volume was recorded for
  the channel.
\<close>

theorem mute_exact:
  "I_WIN_SetMusicVolume snd_maxvolume 0 st =
     Inr (st\<lparr>volume_factor := 0,
             device := device st
               @ map (\<lambda>i. MidiOutShortMsg (volume_message i 0)) [0 ..< MIDI_CHANNELS_PER_TRACK]\<rparr>)
   \<and> MIDI_CHANNELS_PER_TRACK = 16
   \<and> map (\<lambda>i. MIDIEVENT_VOLUME (volume_message i 0)) [0 ..< MIDI_CHANNELS_PER_TRACK]
       = replicate MIDI_CHANNELS_PER_TRACK 0
   \<and> map (\<lambda>i. MIDIEVENT_CHANNEL (volume_message i 0)) [0 ..< MIDI_CHANNELS_PER_TRACK]
       = map of_nat [0 ..< MIDI_CHANNELS_PER_TRACK]
   \<and> map (\<lambda>i. MIDIEVENT_TYPE (volume_message i 0)) [0 ..< MIDI_CHANNELS_PER_TRACK]
       = replicate MIDI_CHANNELS_PER_TRACK (event_type_code MIDI_EVENT_CONTROLLER)
   \<and> map (\<lambda>i. MIDIEVENT_DATA1 (volume_message i 0)) [0 ..< MIDI_CHANNELS_PER_TRACK]
       = replicate MIDI_CHANNELS_PER_TRACK MIDI_CONTROLLER_MAIN_VOLUME"
proof -
  have "I_WIN_SetMusicVolume snd_maxvolume 0 st =
     Inr (st\<lparr>volume_factor := 0,
             device := device st
               @ map (\<lambda>i. MidiOutShortMsg (volume_message i 0)) [0 ..< MIDI_CHANNELS_PER_TRACK]\<rparr>)"
    using send_volumes_muted [of "st\<lparr>volume_factor := 0\<rparr>" "[0 ..< MIDI_CHANNELS_PER_TRACK]"]
    by (simp add: I_WIN_SetMusicVolume_def new_volume_factor_def)
  moreover have "MIDI_CHANNELS_PER_TRACK = 16" by (simp add: MIDI_CHANNELS_PER_TRACK_def)
  ultimately show ?thesis using muted_messages by simp
qed

section \<open>What a registration returns\<close>

lemma I_WIN_RegisterSong_no_file:
  "I_WIN_RegisterSong None m1 m2 m3 st =
     Inr (False, st\<lparr>shown := shown st @ [Printf ''I_WIN_RegisterSong: Failed to load MID.'']\<rparr>)"
  by (simp add: I_WIN_RegisterSong_def)

lemma I_WIN_RegisterSong_timediv_fails:
  "m1 \<noteq> MMSYSERR_NOERROR \<Longrightarrow>
     I_WIN_RegisterSong (Some f) m1 m2 m3 st =
       Inr (False,
            st\<lparr>channel_volume :=
                  (\<lambda>i. if i < MIDI_CHANNELS_PER_TRACK then 100 else channel_volume st i),
                device := device st @ [MidiStreamProperty_TimeDiv (time_division f)],
                shown := shown st @ [MidiErrorMessageBox m1]\<rparr>)"
  by (simp add: I_WIN_RegisterSong_def Let_def)

lemma I_WIN_RegisterSong_tempo_fails:
  "m1 = MMSYSERR_NOERROR \<Longrightarrow> m2 \<noteq> MMSYSERR_NOERROR \<Longrightarrow>
     I_WIN_RegisterSong (Some f) m1 m2 m3 st =
       Inr (False,
            st\<lparr>channel_volume :=
                  (\<lambda>i. if i < MIDI_CHANNELS_PER_TRACK then 100 else channel_volume st i),
                device := device st @ [MidiStreamProperty_TimeDiv (time_division f),
                                       MidiStreamProperty_Tempo 500000],
                shown := shown st @ [MidiErrorMessageBox m2]\<rparr>)"
  by (simp add: I_WIN_RegisterSong_def Let_def)

lemma I_WIN_RegisterSong_goes_on:
  "m1 = MMSYSERR_NOERROR \<Longrightarrow> m2 = MMSYSERR_NOERROR \<Longrightarrow>
     I_WIN_RegisterSong (Some f) m1 m2 m3 st \<noteq> Inr (False, st')"
  by (auto simp: I_WIN_RegisterSong_def Let_def split: sum.splits prod.splits)

section \<open>The scale factor and the indices into the table\<close>

lemma MIDI_MINVOL_value: "MIDI_MINVOL = 13421773 / 67108864"
  by code_simp

lemma MIDI_MAXVOL_value: "MIDI_MAXVOL = 3 / 4"
  by code_simp

lemma MIDI_MINVOL_exact: "f32 MIDI_MINVOL = MIDI_MINVOL"
  by code_simp

lemma MIDI_INCREMENT_15: "0 \<le> MIDI_INCREMENT 15"
  by code_simp

lemma new_volume_factor_15: "new_volume_factor 15 15 = MIDI_MAXVOL"
  by code_simp

lemma new_volume_factor_bounds:
  assumes "1 \<le> level" and "level \<le> 15"
  shows "MIDI_MINVOL \<le> new_volume_factor 15 level"
    and "new_volume_factor 15 level \<le> MIDI_MAXVOL"
proof -
  let ?inc = "MIDI_INCREMENT 15"
  let ?a = "f32 (of_int (level - 1))"
  have a0: "0 \<le> ?a" using assms(1) by (intro f32_nonneg) simp
  have "?a \<le> f32 (of_int (15 - 1))" using assms by (intro f32_mono) simp_all
  then have a1: "?a \<le> f32 14" by simp
  have p0: "0 \<le> ?inc * ?a" using MIDI_INCREMENT_15 a0 by simp
  have p1: "?inc * ?a \<le> ?inc * f32 14" using a1 MIDI_INCREMENT_15 by (rule mult_left_mono)
  have q0: "0 \<le> f32 (?inc * ?a)" using p0 by (rule f32_nonneg)
  have q1: "f32 (?inc * ?a) \<le> f32 (?inc * f32 14)" using p0 p1 by (rule f32_mono)
  have m0: "0 \<le> MIDI_MINVOL" by (simp add: MIDI_MINVOL_value)
  have "f32 MIDI_MINVOL \<le> f32 (MIDI_MINVOL + f32 (?inc * ?a))"
    using m0 q0 by (intro f32_mono) simp_all
  then show "MIDI_MINVOL \<le> new_volume_factor 15 level"
    using assms(1) by (simp add: new_volume_factor_def MIDI_MINVOL_exact)
  have "f32 (MIDI_MINVOL + f32 (?inc * ?a)) \<le> f32 (MIDI_MINVOL + f32 (?inc * f32 14))"
    using m0 q0 q1 by (intro f32_mono) simp_all
  moreover have "new_volume_factor 15 15 = f32 (MIDI_MINVOL + f32 (?inc * f32 14))"
    by (simp add: new_volume_factor_def)
  ultimately show "new_volume_factor 15 level \<le> MIDI_MAXVOL"
    using assms(1) new_volume_factor_15 by (simp add: new_volume_factor_def)
qed

lemma volume_ok_factor:
  assumes "volume_ok st"
  shows "0 \<le> volume_factor st" and "volume_factor st \<le> 1"
  using assms by (auto simp: volume_ok_def MIDI_MINVOL_value MIDI_MAXVOL_value)

lemma volume_ok_channel:
  assumes "volume_ok st" and "i < MIDI_CHANNELS_PER_TRACK"
  shows "0 \<le> channel_volume st i" and "channel_volume st i \<le> 127"
  using assms by (simp_all add: volume_ok_def list_all_length)

lemma MIDIEVENT_VOLUME_range:
  "0 \<le> uint (MIDIEVENT_VOLUME x)" "uint (MIDIEVENT_VOLUME x) \<le> 127"
proof -
  show "0 \<le> uint (MIDIEVENT_VOLUME x)" by simp
  have "x AND 0x7F0000 \<le> 0x7F0000" by (rule word_and_le1)
  then have "uint (x AND 0x7F0000) \<le> 0x7F0000" by (simp add: word_le_def)
  then have "uint (x AND 0x7F0000) div 2 ^ 16 \<le> 0x7F0000 div 2 ^ 16"
    by (rule zdiv_mono1) simp
  then have "uint (x AND 0x7F0000) div 65536 \<le> 127" by simp
  then show "uint (MIDIEVENT_VOLUME x) \<le> 127"
    by (simp add: MIDIEVENT_VOLUME_def drop_bit_eq_div uint_div)
qed

lemma send_volumes_in_bounds:
  assumes "0 \<le> volume_factor st" and "volume_factor st \<le> 1"
    and "list_all (\<lambda>i. 0 \<le> channel_volume st i \<and> channel_volume st i \<le> 127) chans"
  shows "\<exists>msgs. send_volumes chans st = Inr (st\<lparr>device := device st @ msgs\<rparr>)"
  using assms
proof (induction chans arbitrary: st)
  case Nil
  have "st = st\<lparr>device := device st @ []\<rparr>" by simp
  then show ?case by (simp only: send_volumes.simps) blast
next
  case (Cons i chans)
  let ?idx = "scaled_volume (volume_factor st) (channel_volume st i)"
  from Cons.prems have "0 \<le> ?idx" "?idx \<le> 127"
    by (simp_all add: scaled_volume_range)
  from volume_correction_at_range [OF this]
  obtain v where v: "volume_correction_at ?idx = Inr v" by blast
  let ?st = "st\<lparr>device := device st @ [MidiOutShortMsg (volume_message i v)]\<rparr>"
  from Cons.IH [of ?st] Cons.prems
  obtain msgs where "send_volumes chans ?st = Inr (?st\<lparr>device := device ?st @ msgs\<rparr>)"
    by auto
  with v have "send_volumes (i # chans) st
                 = Inr (st\<lparr>device := device st @ (MidiOutShortMsg (volume_message i v) # msgs)\<rparr>)"
    by simp
  then show ?case by blast
qed

lemma I_WIN_SetMusicVolume_ok:
  assumes "volume_ok st" and "0 \<le> level" and "level \<le> 15"
  shows "\<exists>st'. I_WIN_SetMusicVolume 15 level st = Inr st' \<and> volume_ok st'
           \<and> volume_factor st' = new_volume_factor 15 level
           \<and> (volume_factor st' = 0
               \<or> MIDI_MINVOL \<le> volume_factor st' \<and> volume_factor st' \<le> MIDI_MAXVOL)"
proof -
  let ?f = "new_volume_factor 15 level"
  let ?st = "st\<lparr>volume_factor := ?f\<rparr>"
  have f: "?f = 0 \<or> MIDI_MINVOL \<le> ?f \<and> ?f \<le> MIDI_MAXVOL"
  proof (cases "level = 0")
    case True
    then show ?thesis by (simp add: new_volume_factor_def)
  next
    case False
    with assms(2) have "1 \<le> level" by simp
    from new_volume_factor_bounds [OF this assms(3)] show ?thesis by simp
  qed
  then have r: "0 \<le> ?f" "?f \<le> 1"
    by (auto simp: MIDI_MINVOL_value MIDI_MAXVOL_value)
  have c: "list_all (\<lambda>i. 0 \<le> channel_volume ?st i \<and> channel_volume ?st i \<le> 127)
             [0 ..< MIDI_CHANNELS_PER_TRACK]"
    using assms(1) by (simp add: volume_ok_def)
  from send_volumes_in_bounds [of ?st, OF _ _ c] r
  obtain msgs where "send_volumes [0 ..< MIDI_CHANNELS_PER_TRACK] ?st
                       = Inr (?st\<lparr>device := device ?st @ msgs\<rparr>)"
    by auto
  with f c show ?thesis
    by (auto simp: I_WIN_SetMusicVolume_def volume_ok_def)
qed

lemma fill_event_ok:
  assumes "volume_ok st"
  shows "fill_event i st \<noteq> Inl TableOutOfBounds"
    and "fill_event i st = Inr st' \<Longrightarrow> volume_ok st'"
proof -
  let ?ev = "native_events (song st) ! nat (position (song st))"
  let ?v = "uint (MIDIEVENT_VOLUME (dwEvent ?ev))"
  let ?idx = "scaled_volume (volume_factor st) ?v"
  note f = volume_ok_factor [OF assms]
  from scaled_volume_range [OF f MIDIEVENT_VOLUME_range] have "0 \<le> ?idx" "?idx \<le> 127" .
  from volume_correction_at_range [OF this]
  obtain v where v: "volume_correction_at ?idx = Inr v" by blast
  then show "fill_event i st \<noteq> Inl TableOutOfBounds"
    by (simp add: fill_event_def Let_def)
  assume "fill_event i st = Inr st'"
  with v have "volume_factor st' = volume_factor st
      \<and> (channel_volume st' = channel_volume st
          \<or> channel_volume st'
               = (channel_volume st)(unat (MIDIEVENT_CHANNEL (dwEvent ?ev)) := ?v))"
    by (auto simp: fill_event_def Let_def split: if_splits)
  with assms MIDIEVENT_VOLUME_range [of "dwEvent ?ev"] show "volume_ok st'"
    by (auto simp: volume_ok_def list_all_length)
qed

lemma FillBuffer_loop_ok:
  "volume_ok st \<Longrightarrow>
     FillBuffer_loop i st \<noteq> Inl TableOutOfBounds
     \<and> (\<forall>st'. FillBuffer_loop i st = Inr st' \<longrightarrow> volume_ok st')"
proof (induction i st rule: FillBuffer_loop.induct)
  case (1 i st)
  let ?st0 = "st\<lparr>song := (song st)\<lparr>position := 0\<rparr>\<rparr>"
  have ok0: "volume_ok ?st0" using "1.prems" by (simp add: volume_ok_def)
  have okn: "volume_ok (st\<lparr>buffer_num_events := int i\<rparr>)"
    using "1.prems" by (simp add: volume_ok_def)
  show ?case
  proof (cases "i < STREAM_MAX_EVENTS")
    case False
    with okn show ?thesis by (simp add: FillBuffer_loop.simps [of i])
  next
    case i: True
    show ?thesis
    proof (cases "num_events (song st) \<le> position (song st)")
      case e: True
      show ?thesis
      proof (cases "looping (song st)")
        case False
        with i e okn show ?thesis by (simp add: FillBuffer_loop.simps [of i])
      next
        case l: True
        show ?thesis
        proof (cases "fill_event i ?st0")
          case (Inl err)
          with fill_event_ok(1) [OF ok0, of i] i e l show ?thesis
            by (simp add: FillBuffer_loop.simps [of i])
        next
          case (Inr st1)
          from fill_event_ok(2) [OF ok0 Inr] have "volume_ok st1" .
          from "1.IH"(1) [OF i e l Inr this] i e l Inr show ?thesis
            by (simp add: FillBuffer_loop.simps [of i])
        qed
      qed
    next
      case e: False
      show ?thesis
      proof (cases "fill_event i st")
        case (Inl err)
        with fill_event_ok(1) [OF "1.prems", of i] i e show ?thesis
          by (simp add: FillBuffer_loop.simps [of i])
      next
        case (Inr st1)
        from fill_event_ok(2) [OF "1.prems" Inr] have "volume_ok st1" .
        from "1.IH"(2) [OF i e Inr this] i e Inr show ?thesis
          by (simp add: FillBuffer_loop.simps [of i])
      qed
    qed
  qed
qed

lemma MIDItoStream_errors: "MIDItoStream file s \<noteq> Inl TableOutOfBounds"
proof -
  have "merge_loop tracks ct s0 hist \<noteq> Inl TableOutOfBounds" for tracks ct s0 hist
  proof (induction tracks ct s0 hist rule: merge_loop_induct)
    case (Null tracks ct song hist m idx)
    with scan_tracks_open [of tracks INT_MAX m idx] show ?case by simp
  next
    case (ReadFail tracks ct song hist m idx it event it' e)
    then show ?case
      by (auto simp: event_data_def split: midi_event_type_t.splits if_splits)
  qed simp_all
  then show ?thesis by (simp add: MIDItoStream_def)
qed

lemma volume_ok_update:
  "volume_ok (s\<lparr>device := d\<rparr>) = volume_ok s"
  "volume_ok (s\<lparr>shown := sh\<rparr>) = volume_ok s"
  "volume_ok (s\<lparr>song := sg\<rparr>) = volume_ok s"
  "volume_ok (s\<lparr>hBufferReturnEvent := b\<rparr>) = volume_ok s"
  "volume_ok (s\<lparr>hExitEvent := b\<rparr>) = volume_ok s"
  "volume_ok (s\<lparr>buffer_num_events := n\<rparr>) = volume_ok s"
  by (simp_all add: volume_ok_def)

lemma volume_ok_StreamOut: "volume_ok (StreamOut m s) = volume_ok s"
  by (simp add: StreamOut_def Let_def volume_ok_update)

lemma FillBuffer_ok:
  assumes "volume_ok s"
  shows "FillBuffer s \<noteq> Inl TableOutOfBounds" and "FillBuffer s = Inr s' \<Longrightarrow> volume_ok s'"
  using FillBuffer_loop_ok [OF assms, of 0] by (simp_all add: FillBuffer_def)

lemma I_WIN_RegisterSong_ok:
  assumes "volume_ok st"
  shows "I_WIN_RegisterSong parsed m1 m2 m3 st \<noteq> Inl TableOutOfBounds"
    and "I_WIN_RegisterSong parsed m1 m2 m3 st = Inr (ok, st') \<Longrightarrow> volume_ok st'"
proof -
  let ?cv = "\<lambda>i. if i < MIDI_CHANNELS_PER_TRACK then 100 else channel_volume st i"
  have base: "volume_ok (st\<lparr>channel_volume := ?cv\<rparr>)"
    using assms by (simp add: volume_ok_def list_all_length)
  show "I_WIN_RegisterSong parsed m1 m2 m3 st \<noteq> Inl TableOutOfBounds"
  proof (cases parsed)
    case None
    then show ?thesis by (simp add: I_WIN_RegisterSong_def)
  next
    case (Some f)
    show ?thesis
    proof
      assume e: "I_WIN_RegisterSong parsed m1 m2 m3 st = Inl TableOutOfBounds"
      then obtain sg hist s where "FillBuffer s = Inl TableOutOfBounds" and "volume_ok s"
        using Some MIDItoStream_errors [of f "song st"] base
        by (auto simp: I_WIN_RegisterSong_def Let_def volume_ok_update
            split: sum.splits prod.splits if_splits)
      with FillBuffer_ok(1) show False by blast
    qed
  qed
  assume r: "I_WIN_RegisterSong parsed m1 m2 m3 st = Inr (ok, st')"
  show "volume_ok st'"
  proof (cases parsed)
    case None
    with r assms show ?thesis by (auto simp: I_WIN_RegisterSong_def volume_ok_update)
  next
    case (Some f)
    show ?thesis
    proof (cases "m1 = MMSYSERR_NOERROR \<and> m2 = MMSYSERR_NOERROR")
      case False
      with r Some base show ?thesis
        by (auto simp: I_WIN_RegisterSong_def Let_def volume_ok_update split: if_splits)
    next
      case True
      with r Some obtain sg hist where m: "MIDItoStream f (song st) = Inr (sg, hist)"
        by (cases "MIDItoStream f (song st)") (auto simp: I_WIN_RegisterSong_def Let_def)
      let ?s = "st\<lparr>channel_volume := ?cv,
                    device := device st @ [MidiStreamProperty_TimeDiv (time_division f),
                                           MidiStreamProperty_Tempo 500000],
                    song := sg, hBufferReturnEvent := False, hExitEvent := False\<rparr>"
      from r Some True m obtain s' where s: "FillBuffer ?s = Inr s'" and st': "st' = StreamOut m3 s'"
        by (cases "FillBuffer ?s") (auto simp: I_WIN_RegisterSong_def Let_def)
      have "volume_ok ?s" using base by (simp add: volume_ok_update)
      from FillBuffer_ok(2) [OF this s] st' show ?thesis by (simp add: volume_ok_StreamOut)
    qed
  qed
qed

lemma volume_ok_initial: "volume_ok initial_state"
  by (simp add: volume_ok_def initial_state_def list_all_length)

text \<open>
  C9, for \<^verbatim>\<open>SND_MAXVOLUME\<close> = 15. The state the program starts in has the scale factor
  1.0 and the channel volumes in 0..127. From a state like that,
  \<^verbatim>\<open>I_WIN_SetMusicVolume\<close> at a level from 0 to 15 reads the table within its bounds for
  every channel, leaves the factor at 0.0 or between 0.20 and 0.75 and the channel volumes
  as they were; \<^verbatim>\<open>FillBuffer\<close> and \<^verbatim>\<open>I_WIN_RegisterSong\<close> never read the table out of
  bounds and leave a state like that again. In such a state the factor lies from 0 to 1,
  and the index formed from a channel's volume, or from the volume field of any event,
  lies from 0 to 127.
\<close>

theorem volume_indices_in_bounds:
  "volume_ok initial_state
   \<and> (volume_ok st \<and> snd_maxvolume = 15 \<and> 0 \<le> level \<and> level \<le> snd_maxvolume \<longrightarrow>
        (\<exists>st'. I_WIN_SetMusicVolume snd_maxvolume level st = Inr st' \<and> volume_ok st'
               \<and> (volume_factor st' = 0
                   \<or> MIDI_MINVOL \<le> volume_factor st' \<and> volume_factor st' \<le> MIDI_MAXVOL)))
   \<and> (volume_ok st \<longrightarrow>
        FillBuffer st \<noteq> Inl TableOutOfBounds
        \<and> (\<forall>st'. FillBuffer st = Inr st' \<longrightarrow> volume_ok st'))
   \<and> (volume_ok st \<longrightarrow>
        I_WIN_RegisterSong parsed m1 m2 m3 st \<noteq> Inl TableOutOfBounds
        \<and> (\<forall>ok st'. I_WIN_RegisterSong parsed m1 m2 m3 st = Inr (ok, st') \<longrightarrow> volume_ok st'))
   \<and> (volume_ok st \<longrightarrow> 0 \<le> volume_factor st \<and> volume_factor st \<le> 1)
   \<and> (volume_ok st \<and> i < MIDI_CHANNELS_PER_TRACK \<longrightarrow>
        0 \<le> channel_volume st i \<and> channel_volume st i \<le> 127
        \<and> 0 \<le> scaled_volume (volume_factor st) (channel_volume st i)
        \<and> scaled_volume (volume_factor st) (channel_volume st i) < 128)
   \<and> (volume_ok st \<longrightarrow>
        0 \<le> scaled_volume (volume_factor st) (uint (MIDIEVENT_VOLUME x))
        \<and> scaled_volume (volume_factor st) (uint (MIDIEVENT_VOLUME x)) < 128)
   \<and> length volume_correction = 128
   \<and> MIDI_MINVOL = 13421773 / 67108864 \<and> MIDI_MAXVOL = 3 / 4"
proof (intro conjI impI allI)
  show "volume_ok initial_state" by (rule volume_ok_initial)
  show "length volume_correction = 128" by (rule volume_correction_length)
  show "MIDI_MINVOL = 13421773 / 67108864" by (rule MIDI_MINVOL_value)
  show "MIDI_MAXVOL = 3 / 4" by (rule MIDI_MAXVOL_value)
next
  assume "volume_ok st \<and> snd_maxvolume = 15 \<and> 0 \<le> level \<and> level \<le> snd_maxvolume"
  then have "volume_ok st" "snd_maxvolume = 15" "0 \<le> level" "level \<le> 15" by simp_all
  with I_WIN_SetMusicVolume_ok [of st level]
  show "\<exists>st'. I_WIN_SetMusicVolume snd_maxvolume level st = Inr st' \<and> volume_ok st'
               \<and> (volume_factor st' = 0
                   \<or> MIDI_MINVOL \<le> volume_factor st' \<and> volume_factor st' \<le> MIDI_MAXVOL)"
    by auto
next
  assume a: "volume_ok st"
  from FillBuffer_ok(1) [OF a] show "FillBuffer st \<noteq> Inl TableOutOfBounds" .
  from I_WIN_RegisterSong_ok(1) [OF a]
  show "I_WIN_RegisterSong parsed m1 m2 m3 st \<noteq> Inl TableOutOfBounds" .
  from volume_ok_factor [OF a] show "0 \<le> volume_factor st" and "volume_factor st \<le> 1" .
  note r = scaled_volume_range [OF volume_ok_factor [OF a] MIDIEVENT_VOLUME_range [of x]]
  from r(1) show "0 \<le> scaled_volume (volume_factor st) (uint (MIDIEVENT_VOLUME x))" .
  from r(2) show "scaled_volume (volume_factor st) (uint (MIDIEVENT_VOLUME x)) < 128" by simp
next
  fix st'
  assume "volume_ok st" and "FillBuffer st = Inr st'"
  then show "volume_ok st'" by (rule FillBuffer_ok(2))
next
  fix ok st'
  assume "volume_ok st" and "I_WIN_RegisterSong parsed m1 m2 m3 st = Inr (ok, st')"
  then show "volume_ok st'" by (rule I_WIN_RegisterSong_ok(2))
next
  assume a: "volume_ok st \<and> i < MIDI_CHANNELS_PER_TRACK"
  then have ok: "volume_ok st" and i: "i < MIDI_CHANNELS_PER_TRACK" by simp_all
  note c = volume_ok_channel [OF ok i]
  from c show "0 \<le> channel_volume st i" and "channel_volume st i \<le> 127" .
  note r = scaled_volume_range [OF volume_ok_factor [OF ok] c]
  from r(1) show "0 \<le> scaled_volume (volume_factor st) (channel_volume st i)" .
  from r(2) show "scaled_volume (volume_factor st) (channel_volume st i) < 128" by simp
qed

lemma playing_snapshot:
  "snapshot playing_state =
     (\<lparr>native_events =
         [\<lparr>dwDeltaTime = 0, dwStreamID = 0, dwEvent = 0x4007B0\<rparr>,
          \<lparr>dwDeltaTime = 10, dwStreamID = 0, dwEvent = 0x643C90\<rparr>],
       num_events = 2, position = 2, looping = True\<rparr>,
      3984589 / 8388608,
      [64, 100, 100, 100, 100, 100, 100, 100, 100, 100, 100, 100, 100, 100, 100, 100],
      2,
      [\<lparr>dwDeltaTime = 0, dwStreamID = 0, dwEvent = 0x1F07B0\<rparr>,
       \<lparr>dwDeltaTime = 10, dwStreamID = 0, dwEvent = 0x643C90\<rparr>])"
  by code_simp

lemma playing_fill:
  "(case FillBuffer playing_state of Inl e \<Rightarrow> None | Inr st' \<Rightarrow> Some (snapshot st')) =
     Some (\<lparr>native_events =
              [\<lparr>dwDeltaTime = 0, dwStreamID = 0, dwEvent = 0x4007B0\<rparr>,
               \<lparr>dwDeltaTime = 10, dwStreamID = 0, dwEvent = 0x643C90\<rparr>],
            num_events = 2, position = 2, looping = True\<rparr>,
           3984589 / 8388608,
           [64, 100, 100, 100, 100, 100, 100, 100, 100, 100, 100, 100, 100, 100, 100, 100],
           4,
           [\<lparr>dwDeltaTime = 0, dwStreamID = 0, dwEvent = 0x1F07B0\<rparr>,
            \<lparr>dwDeltaTime = 10, dwStreamID = 0, dwEvent = 0x643C90\<rparr>,
            \<lparr>dwDeltaTime = 0, dwStreamID = 0, dwEvent = 0x1F07B0\<rparr>,
            \<lparr>dwDeltaTime = 10, dwStreamID = 0, dwEvent = 0x643C90\<rparr>])"
  by code_simp

lemma playing_fields:
  "song playing_state =
     \<lparr>native_events =
        [\<lparr>dwDeltaTime = 0, dwStreamID = 0, dwEvent = 0x4007B0\<rparr>,
         \<lparr>dwDeltaTime = 10, dwStreamID = 0, dwEvent = 0x643C90\<rparr>],
      num_events = 2, position = 2, looping = True\<rparr>"
  "volume_factor playing_state = 3984589 / 8388608"
  "channel_volume playing_state 0 = 64"
  "channel_volume playing_state 1 = 100"
  "buffer_num_events playing_state = 2"
  "buffer_events playing_state 0 = \<lparr>dwDeltaTime = 0, dwStreamID = 0, dwEvent = 0x1F07B0\<rparr>"
proof -
  note s = playing_snapshot [unfolded snapshot_def prod.inject]
  from s show "song playing_state =
     \<lparr>native_events =
        [\<lparr>dwDeltaTime = 0, dwStreamID = 0, dwEvent = 0x4007B0\<rparr>,
         \<lparr>dwDeltaTime = 10, dwStreamID = 0, dwEvent = 0x643C90\<rparr>],
      num_events = 2, position = 2, looping = True\<rparr>"
    by (rule conjunct1)
  from s show "volume_factor playing_state = 3984589 / 8388608" by blast
  from s show n: "buffer_num_events playing_state = 2" by blast
  from s have c: "map (channel_volume playing_state) [0 ..< MIDI_CHANNELS_PER_TRACK]
      = [64, 100, 100, 100, 100, 100, 100, 100, 100, 100, 100, 100, 100, 100, 100, 100]"
    by blast
  from arg_cong [OF c, of "\<lambda>l. l ! 0"] show "channel_volume playing_state 0 = 64"
    by (simp add: MIDI_CHANNELS_PER_TRACK_def)
  from arg_cong [OF c, of "\<lambda>l. l ! 1"] show "channel_volume playing_state 1 = 100"
    by (simp add: MIDI_CHANNELS_PER_TRACK_def)
  from s have w: "window playing_state
      = [\<lparr>dwDeltaTime = 0, dwStreamID = 0, dwEvent = 0x1F07B0\<rparr>,
         \<lparr>dwDeltaTime = 10, dwStreamID = 0, dwEvent = 0x643C90\<rparr>]"
    by blast
  from arg_cong [OF w, of "\<lambda>l. l ! 0"] n
  show "buffer_events playing_state 0 = \<lparr>dwDeltaTime = 0, dwStreamID = 0, dwEvent = 0x1F07B0\<rparr>"
    by (simp add: window_def)
qed

lemma playing_index: "scaled_volume (3984589 / 8388608) 64 = 30"
  by code_simp

lemma playing_registered:
  "\<exists>st'. I_WIN_RegisterSong (Some volume_file) 0 0 0 quiet_state = Inr (True, st')
         \<and> playing_state = I_WIN_PlaySong True 0 st'"
proof (cases "I_WIN_RegisterSong (Some volume_file) 0 0 0 quiet_state")
  case (Inl e)
  have "playing_state = I_WIN_PlaySong True 0 initial_state"
    unfolding playing_state_def Inl by simp
  then have "song playing_state = song (I_WIN_PlaySong True 0 initial_state)"
    by (rule arg_cong)
  also have "num_events \<dots> = 0"
    by (simp add: I_WIN_PlaySong_def Let_def initial_state_def empty_song_def
        MMSYSERR_NOERROR_def)
  finally have "num_events (song playing_state) = 0" .
  moreover have "num_events (song playing_state) = 2"
    unfolding playing_fields(1) by simp
  ultimately have False by linarith
  then show ?thesis ..
next
  case (Inr r)
  obtain ok st' where r: "r = (ok, st')" by (cases r)
  have p: "playing_state = I_WIN_PlaySong True 0 st'"
    unfolding playing_state_def Inr r by simp
  have "ok"
  proof (rule ccontr)
    assume "\<not> ok"
    then have "ok = False" by simp
    with Inr r have f: "I_WIN_RegisterSong (Some volume_file) 0 0 0 quiet_state = Inr (False, st')"
      by (simp only:)
    have z: "(0 :: 32 word) = MMSYSERR_NOERROR" by (simp add: MMSYSERR_NOERROR_def)
    from I_WIN_RegisterSong_goes_on [OF z z, of volume_file 0 quiet_state st'] f
    show False by blast
  qed
  then have "ok = True" by simp
  with Inr r have "I_WIN_RegisterSong (Some volume_file) 0 0 0 quiet_state = Inr (True, st')"
    by (simp only:)
  with p show ?thesis by blast
qed

theorem volume_indices_in_bounds_witness:
  "volume_ok initial_state \<and> (15 :: int) = 15 \<and> (0 :: int) \<le> 8 \<and> (8 :: int) \<le> 15
   \<and> I_WIN_SetMusicVolume 15 8 initial_state = Inr quiet_state \<and> volume_ok quiet_state
   \<and> (\<exists>st'. I_WIN_RegisterSong (Some volume_file) 0 0 0 quiet_state = Inr (True, st')
          \<and> volume_ok st' \<and> playing_state = I_WIN_PlaySong True 0 st')
   \<and> volume_ok playing_state
   \<and> volume_factor playing_state = 3984589 / 8388608
   \<and> (0 :: nat) < MIDI_CHANNELS_PER_TRACK \<and> channel_volume playing_state 0 = 64
   \<and> scaled_volume (volume_factor playing_state) (channel_volume playing_state 0) = 30
   \<and> scaled_volume (volume_factor playing_state) (channel_volume playing_state 0) < 128
   \<and> scaled_volume (volume_factor playing_state) (uint (MIDIEVENT_VOLUME 0x4007B0)) < 128
   \<and> (0 :: int) \<le> 12 \<and> (12 :: int) \<le> 15
   \<and> (\<exists>st'. I_WIN_SetMusicVolume 15 12 playing_state = Inr st' \<and> volume_ok st'
          \<and> MIDI_MINVOL \<le> volume_factor st' \<and> volume_factor st' \<le> MIDI_MAXVOL)
   \<and> (\<exists>st'. FillBuffer playing_state = Inr st' \<and> volume_ok st'
          \<and> window st'
              = [\<lparr>dwDeltaTime = 0, dwStreamID = 0, dwEvent = 0x1F07B0\<rparr>,
                 \<lparr>dwDeltaTime = 10, dwStreamID = 0, dwEvent = 0x643C90\<rparr>,
                 \<lparr>dwDeltaTime = 0, dwStreamID = 0, dwEvent = 0x1F07B0\<rparr>,
                 \<lparr>dwDeltaTime = 10, dwStreamID = 0, dwEvent = 0x643C90\<rparr>])"
proof -
  have l8: "(15 :: int) = 15 \<and> (0 :: int) \<le> 8 \<and> (8 :: int) \<le> 15" by simp
  have l12: "(15 :: int) = 15 \<and> (0 :: int) \<le> 12 \<and> (12 :: int) \<le> 15" by simp
  have i: "(0 :: nat) < MIDI_CHANNELS_PER_TRACK" by (simp add: MIDI_CHANNELS_PER_TRACK_def)
  note t0 = volume_indices_in_bounds [of initial_state 15 8 "Some volume_file" 0 0 0 0 0]
  from t0 have ok0: "volume_ok initial_state" by blast
  from t0 ok0 l8 obtain st1 where s1: "I_WIN_SetMusicVolume 15 8 initial_state = Inr st1"
    and ok1': "volume_ok st1"
    by blast
  from s1 have q: "quiet_state = st1" by (simp add: quiet_state_def)
  with s1 ok1' have sq: "I_WIN_SetMusicVolume 15 8 initial_state = Inr quiet_state"
    and ok1: "volume_ok quiet_state"
    by simp_all
  note t1 = volume_indices_in_bounds [of quiet_state 15 8 "Some volume_file" 0 0 0 0 0]
  from playing_registered obtain st2
    where r2: "I_WIN_RegisterSong (Some volume_file) 0 0 0 quiet_state = Inr (True, st2)"
      and p2: "playing_state = I_WIN_PlaySong True 0 st2"
    by blast
  from t1 ok1 r2 have ok2: "volume_ok st2" by blast
  then have "volume_ok (I_WIN_PlaySong True 0 st2)"
    by (simp add: I_WIN_PlaySong_def Let_def volume_ok_update MMSYSERR_NOERROR_def)
  with p2 have okp: "volume_ok playing_state" by simp
  note t2 = volume_indices_in_bounds
    [of playing_state 15 12 "Some volume_file" 0 0 0 0 "0x4007B0"]
  from t2 okp i
  have b1: "scaled_volume (volume_factor playing_state) (channel_volume playing_state 0) < 128"
    by blast
  from t2 okp
  have b2: "scaled_volume (volume_factor playing_state) (uint (MIDIEVENT_VOLUME 0x4007B0)) < 128"
    by blast
  have e: "scaled_volume (volume_factor playing_state) (channel_volume playing_state 0) = 30"
    by (simp add: playing_fields playing_index)
  from t2 okp l12 obtain st3 where s3: "I_WIN_SetMusicVolume 15 12 playing_state = Inr st3"
    and ok3: "volume_ok st3"
    and f3: "volume_factor st3 = 0
       \<or> MIDI_MINVOL \<le> volume_factor st3 \<and> volume_factor st3 \<le> MIDI_MAXVOL"
    by blast
  from f3 have f3': "MIDI_MINVOL \<le> volume_factor st3 \<and> volume_factor st3 \<le> MIDI_MAXVOL"
  proof
    assume z: "volume_factor st3 = 0"
    from I_WIN_SetMusicVolume_ok [OF okp, of 12] s3
    have "volume_factor st3 = new_volume_factor 15 12" by auto
    with z new_volume_factor_bounds(1) [of 12] show ?thesis
      by (simp add: MIDI_MINVOL_value)
  qed
  from playing_fill obtain st4 where f4: "FillBuffer playing_state = Inr st4"
    and w4: "window st4
              = [\<lparr>dwDeltaTime = 0, dwStreamID = 0, dwEvent = 0x1F07B0\<rparr>,
                 \<lparr>dwDeltaTime = 10, dwStreamID = 0, dwEvent = 0x643C90\<rparr>,
                 \<lparr>dwDeltaTime = 0, dwStreamID = 0, dwEvent = 0x1F07B0\<rparr>,
                 \<lparr>dwDeltaTime = 10, dwStreamID = 0, dwEvent = 0x643C90\<rparr>]"
    by (cases "FillBuffer playing_state") (simp_all add: snapshot_def)
  from t2 okp f4 have ok4: "volume_ok st4" by blast
  from ok0 l8 sq ok1 r2 ok2 p2 okp playing_fields(2,3) i e b1 b2 l12 s3 ok3 f3' f4 ok4 w4
  show ?thesis by blast
qed

section \<open>A registration that fails\<close>

text \<open>
  C3, as the code has it. \<^verbatim>\<open>I_WIN_RegisterSong\<close> returns failure when the bytes do not
  parse and when one of the two \<^verbatim>\<open>midiStreamProperty\<close> calls fails, and not otherwise.
  Whenever it does, the song (event array, event count, cursor, looping flag), the scale
  factor and the buffer are as before the call. When the bytes do not parse the channel
  volumes are as before too and no call is made on the device; when a device call fails
  the 16 channel volumes are 100.
\<close>

theorem register_failure:
  "(parsed = None \<or> m1 \<noteq> MMSYSERR_NOERROR \<or> m2 \<noteq> MMSYSERR_NOERROR \<longrightarrow>
      (\<exists>st'. I_WIN_RegisterSong parsed m1 m2 m3 st = Inr (False, st')))
   \<and> (I_WIN_RegisterSong parsed m1 m2 m3 st = Inr (False, st') \<longrightarrow>
        (parsed = None \<or> m1 \<noteq> MMSYSERR_NOERROR \<or> m2 \<noteq> MMSYSERR_NOERROR)
        \<and> song st' = song st \<and> volume_factor st' = volume_factor st
        \<and> buffer_events st' = buffer_events st \<and> buffer_num_events st' = buffer_num_events st
        \<and> (parsed = None \<longrightarrow> channel_volume st' = channel_volume st \<and> device st' = device st)
        \<and> (parsed \<noteq> None \<longrightarrow>
             channel_volume st'
               = (\<lambda>i. if i < MIDI_CHANNELS_PER_TRACK then 100 else channel_volume st i)))"
proof (cases parsed)
  case None
  then show ?thesis by (auto simp: I_WIN_RegisterSong_no_file)
next
  case (Some f)
  show ?thesis
  proof (cases "m1 = MMSYSERR_NOERROR")
    case False
    with Some show ?thesis by (auto simp: I_WIN_RegisterSong_timediv_fails)
  next
    case m1: True
    show ?thesis
    proof (cases "m2 = MMSYSERR_NOERROR")
      case False
      with Some m1 show ?thesis by (auto simp: I_WIN_RegisterSong_tempo_fails)
    next
      case True
      with Some m1 I_WIN_RegisterSong_goes_on [OF m1 True, of f m3 st st'] show ?thesis by simp
    qed
  qed
qed

theorem register_failure_witness:
  "(\<exists>st'. I_WIN_RegisterSong None 0 0 0 playing_state = Inr (False, st')
       \<and> song st' =
           \<lparr>native_events =
              [\<lparr>dwDeltaTime = 0, dwStreamID = 0, dwEvent = 0x4007B0\<rparr>,
               \<lparr>dwDeltaTime = 10, dwStreamID = 0, dwEvent = 0x643C90\<rparr>],
            num_events = 2, position = 2, looping = True\<rparr>
       \<and> volume_factor st' = 3984589 / 8388608
       \<and> buffer_num_events st' = 2
       \<and> buffer_events st' 0 = \<lparr>dwDeltaTime = 0, dwStreamID = 0, dwEvent = 0x1F07B0\<rparr>
       \<and> channel_volume st' 0 = 64 \<and> device st' = device playing_state)
   \<and> (\<exists>st'. I_WIN_RegisterSong (Some example_file) 1 0 0 playing_state = Inr (False, st')
       \<and> song st' =
           \<lparr>native_events =
              [\<lparr>dwDeltaTime = 0, dwStreamID = 0, dwEvent = 0x4007B0\<rparr>,
               \<lparr>dwDeltaTime = 10, dwStreamID = 0, dwEvent = 0x643C90\<rparr>],
            num_events = 2, position = 2, looping = True\<rparr>
       \<and> volume_factor st' = 3984589 / 8388608
       \<and> buffer_num_events st' = 2
       \<and> buffer_events st' 0 = \<lparr>dwDeltaTime = 0, dwStreamID = 0, dwEvent = 0x1F07B0\<rparr>
       \<and> channel_volume st' 0 = 100)
   \<and> (\<exists>st'. I_WIN_RegisterSong (Some example_file) 0 1 0 playing_state = Inr (False, st')
       \<and> song st' =
           \<lparr>native_events =
              [\<lparr>dwDeltaTime = 0, dwStreamID = 0, dwEvent = 0x4007B0\<rparr>,
               \<lparr>dwDeltaTime = 10, dwStreamID = 0, dwEvent = 0x643C90\<rparr>],
            num_events = 2, position = 2, looping = True\<rparr>
       \<and> volume_factor st' = 3984589 / 8388608
       \<and> buffer_num_events st' = 2
       \<and> buffer_events st' 0 = \<lparr>dwDeltaTime = 0, dwStreamID = 0, dwEvent = 0x1F07B0\<rparr>
       \<and> channel_volume st' 0 = 100)"
proof -
  have c: "(0 :: nat) < MIDI_CHANNELS_PER_TRACK" by (simp add: MIDI_CHANNELS_PER_TRACK_def)
  have m: "(1 :: 32 word) \<noteq> MMSYSERR_NOERROR" by (simp add: MMSYSERR_NOERROR_def)
  from register_failure [of None 0 0 0 playing_state]
  obtain sa where ra: "I_WIN_RegisterSong None 0 0 0 playing_state = Inr (False, sa)"
    by blast
  from register_failure [of None 0 0 0 playing_state sa] ra
  have a: "song sa = song playing_state" "volume_factor sa = volume_factor playing_state"
    "buffer_events sa = buffer_events playing_state"
    "buffer_num_events sa = buffer_num_events playing_state"
    "channel_volume sa = channel_volume playing_state" "device sa = device playing_state"
    by blast+
  from register_failure [of "Some example_file" 1 0 0 playing_state] m
  obtain sb where rb: "I_WIN_RegisterSong (Some example_file) 1 0 0 playing_state = Inr (False, sb)"
    by blast
  from register_failure [of "Some example_file" 1 0 0 playing_state sb] rb
  have b: "song sb = song playing_state" "volume_factor sb = volume_factor playing_state"
    "buffer_events sb = buffer_events playing_state"
    "buffer_num_events sb = buffer_num_events playing_state"
    "channel_volume sb
       = (\<lambda>i. if i < MIDI_CHANNELS_PER_TRACK then 100 else channel_volume playing_state i)"
    by blast+
  from register_failure [of "Some example_file" 0 1 0 playing_state] m
  obtain sc where rc: "I_WIN_RegisterSong (Some example_file) 0 1 0 playing_state = Inr (False, sc)"
    by blast
  from register_failure [of "Some example_file" 0 1 0 playing_state sc] rc
  have d: "song sc = song playing_state" "volume_factor sc = volume_factor playing_state"
    "buffer_events sc = buffer_events playing_state"
    "buffer_num_events sc = buffer_num_events playing_state"
    "channel_volume sc
       = (\<lambda>i. if i < MIDI_CHANNELS_PER_TRACK then 100 else channel_volume playing_state i)"
    by blast+
  from ra a have "\<exists>st'. I_WIN_RegisterSong None 0 0 0 playing_state = Inr (False, st')
       \<and> song st' = song playing_state
       \<and> volume_factor st' = volume_factor playing_state
       \<and> buffer_num_events st' = buffer_num_events playing_state
       \<and> buffer_events st' 0 = buffer_events playing_state 0
       \<and> channel_volume st' 0 = channel_volume playing_state 0
       \<and> device st' = device playing_state"
    by simp
  moreover from rb b c
  have "\<exists>st'. I_WIN_RegisterSong (Some example_file) 1 0 0 playing_state = Inr (False, st')
       \<and> song st' = song playing_state
       \<and> volume_factor st' = volume_factor playing_state
       \<and> buffer_num_events st' = buffer_num_events playing_state
       \<and> buffer_events st' 0 = buffer_events playing_state 0
       \<and> channel_volume st' 0 = 100"
    by simp
  moreover from rc d c
  have "\<exists>st'. I_WIN_RegisterSong (Some example_file) 0 1 0 playing_state = Inr (False, st')
       \<and> song st' = song playing_state
       \<and> volume_factor st' = volume_factor playing_state
       \<and> buffer_num_events st' = buffer_num_events playing_state
       \<and> buffer_events st' 0 = buffer_events playing_state 0
       \<and> channel_volume st' 0 = 100"
    by simp
  ultimately show ?thesis
    unfolding playing_fields by blast
qed

text \<open>
  As C3 is stated it fails for the channel volumes. A song whose first event sets the
  volume of channel 0 to 64 is registered, which streams that event, and unregistered;
  the next registration fails at the time division, and the volume on record for
  channel 0 is 100.
\<close>

theorem register_failure_resets_volumes:
  "case I_WIN_RegisterSong (Some volume_file) 0 0 0 initial_state of
     Inl e \<Rightarrow> False
   | Inr (ok, st) \<Rightarrow>
       ok \<and> channel_volume st 0 = 64
       \<and> (case I_WIN_RegisterSong (Some example_file) 1 0 0
                  (st\<lparr>song := I_WIN_UnRegisterSong (song st)\<rparr>) of
            Inl e \<Rightarrow> False
          | Inr (ok', st') \<Rightarrow>
              \<not> ok' \<and> song st' = I_WIN_UnRegisterSong (song st)
              \<and> channel_volume st' 0 = 100)"
  by code_simp

section \<open>The round of the player thread when both events are signalled\<close>

lemma fill_event_signals:
  "fill_event i st = Inr st' \<Longrightarrow>
     hExitEvent st' = hExitEvent st \<and> hBufferReturnEvent st' = hBufferReturnEvent st"
  by (auto simp: fill_event_def Let_def split: if_splits sum.splits)

lemma FillBuffer_loop_signals:
  "FillBuffer_loop i st = Inr st' \<Longrightarrow>
     hExitEvent st' = hExitEvent st \<and> hBufferReturnEvent st' = hBufferReturnEvent st"
proof (induction i st rule: FillBuffer_loop.induct)
  case (1 i st)
  let ?st0 = "st\<lparr>song := (song st)\<lparr>position := 0\<rparr>\<rparr>"
  show ?case
  proof (cases "i < STREAM_MAX_EVENTS")
    case False
    with "1.prems" show ?thesis by (auto simp: FillBuffer_loop.simps [of i])
  next
    case i: True
    show ?thesis
    proof (cases "num_events (song st) \<le> position (song st)")
      case e: True
      show ?thesis
      proof (cases "looping (song st)")
        case False
        with i e "1.prems" show ?thesis by (auto simp: FillBuffer_loop.simps [of i])
      next
        case l: True
        from "1.prems" i e l obtain st1 where f: "fill_event i ?st0 = Inr st1"
          and r: "FillBuffer_loop (i + 1) st1 = Inr st'"
          by (cases "fill_event i ?st0") (auto simp: FillBuffer_loop.simps [of i])
        from "1.IH"(1) [OF i e l f r] fill_event_signals [OF f] show ?thesis by simp
      qed
    next
      case e: False
      from "1.prems" i e obtain st1 where f: "fill_event i st = Inr st1"
        and r: "FillBuffer_loop (i + 1) st1 = Inr st'"
        by (cases "fill_event i st") (auto simp: FillBuffer_loop.simps [of i])
      from "1.IH"(2) [OF i e f r] fill_event_signals [OF f] show ?thesis by simp
    qed
  qed
qed

lemma StreamOut_signals:
  "hExitEvent (StreamOut mmr st) = hExitEvent st"
  "hBufferReturnEvent (StreamOut mmr st) = hBufferReturnEvent st"
  by (simp_all add: StreamOut_def Let_def)

lemma PlayerProc_round_exit:
  "hExitEvent st \<Longrightarrow> \<not> hBufferReturnEvent st \<Longrightarrow>
     PlayerProc_round mmr st = Inr (Returned (st\<lparr>hExitEvent := False\<rparr>))"
  by (simp add: PlayerProc_round_def WaitForMultipleObjects_def)

lemma PlayerProc_round_buffer:
  "hBufferReturnEvent st \<Longrightarrow>
     PlayerProc_round mmr st =
       (case FillBuffer (st\<lparr>hBufferReturnEvent := False\<rparr>) of
          Inl e \<Rightarrow> Inl e
        | Inr st' \<Rightarrow> Inr (Running (StreamOut mmr st')))"
  by (simp add: PlayerProc_round_def WaitForMultipleObjects_def)

lemma PlayerProc_round_waits:
  "\<not> hExitEvent st \<Longrightarrow> \<not> hBufferReturnEvent st \<Longrightarrow> PlayerProc_round mmr st = Inr Waiting"
  by (simp add: PlayerProc_round_def WaitForMultipleObjects_def)

lemma PlayerProc_round_running:
  assumes "hBufferReturnEvent st" and "PlayerProc_round mmr st = Inr (Running st')"
  shows "hExitEvent st' = hExitEvent st" and "\<not> hBufferReturnEvent st'"
proof -
  from assms obtain st1 where f: "FillBuffer (st\<lparr>hBufferReturnEvent := False\<rparr>) = Inr st1"
    and s: "st' = StreamOut mmr st1"
    by (cases "FillBuffer (st\<lparr>hBufferReturnEvent := False\<rparr>)")
       (auto simp: PlayerProc_round_buffer)
  from FillBuffer_loop_signals [of 0 "st\<lparr>hBufferReturnEvent := False\<rparr>" st1] f
  have "hExitEvent st1 = hExitEvent st" "\<not> hBufferReturnEvent st1"
    by (simp_all add: FillBuffer_def)
  with s show "hExitEvent st' = hExitEvent st" and "\<not> hBufferReturnEvent st'"
    by (simp_all add: StreamOut_signals)
qed

text \<open>
  C4, as the code has it. A round of the thread that finds the exit event signalled and
  the buffer-returned event not signalled ends the thread without a fill. A round that
  finds the buffer-returned event signalled fills and submits, whether or not the exit
  event is signalled too: the wait is satisfied by the event of smaller index. The exit
  event then stays signalled, and the next round ends the thread unless the device has
  returned a buffer again in between.
\<close>

theorem player_exit:
  "(hExitEvent st \<and> \<not> hBufferReturnEvent st \<longrightarrow>
      PlayerProc_round mmr st = Inr (Returned (st\<lparr>hExitEvent := False\<rparr>)))
   \<and> (hBufferReturnEvent st \<longrightarrow>
        PlayerProc_round mmr st =
          (case FillBuffer (st\<lparr>hBufferReturnEvent := False\<rparr>) of
             Inl e \<Rightarrow> Inl e
           | Inr st' \<Rightarrow> Inr (Running (StreamOut mmr st'))))
   \<and> (hBufferReturnEvent st \<and> hExitEvent st \<and> PlayerProc_round mmr st = Inr (Running st')
        \<longrightarrow> hExitEvent st' \<and> \<not> hBufferReturnEvent st'
            \<and> PlayerProc_round mmr' st' = Inr (Returned (st'\<lparr>hExitEvent := False\<rparr>)))
   \<and> (\<not> hExitEvent st \<and> \<not> hBufferReturnEvent st \<longrightarrow> PlayerProc_round mmr st = Inr Waiting)"
proof (intro conjI impI)
  assume "hExitEvent st \<and> \<not> hBufferReturnEvent st"
  then show "PlayerProc_round mmr st = Inr (Returned (st\<lparr>hExitEvent := False\<rparr>))"
    by (simp add: PlayerProc_round_exit)
next
  assume "hBufferReturnEvent st"
  then show "PlayerProc_round mmr st =
          (case FillBuffer (st\<lparr>hBufferReturnEvent := False\<rparr>) of
             Inl e \<Rightarrow> Inl e
           | Inr st' \<Rightarrow> Inr (Running (StreamOut mmr st')))"
    by (rule PlayerProc_round_buffer)
next
  assume a: "hBufferReturnEvent st \<and> hExitEvent st
             \<and> PlayerProc_round mmr st = Inr (Running st')"
  then have b: "hBufferReturnEvent st" and r: "PlayerProc_round mmr st = Inr (Running st')"
    by simp_all
  from PlayerProc_round_running [OF b r] a
  show e: "hExitEvent st'" and n: "\<not> hBufferReturnEvent st'" by simp_all
  from PlayerProc_round_exit [OF e n]
  show "PlayerProc_round mmr' st' = Inr (Returned (st'\<lparr>hExitEvent := False\<rparr>))" .
next
  assume "\<not> hExitEvent st \<and> \<not> hBufferReturnEvent st"
  then show "PlayerProc_round mmr st = Inr Waiting" by (simp add: PlayerProc_round_waits)
qed

lemma signalled_state_signals:
  "hBufferReturnEvent (signalled_state b e) = b" "hExitEvent (signalled_state b e) = e"
  by (simp_all add: signalled_state_def)

theorem player_exit_witness:
  "hExitEvent (signalled_state False True) \<and> \<not> hBufferReturnEvent (signalled_state False True)
   \<and> PlayerProc_round 0 (signalled_state False True)
       = Inr (Returned (signalled_state False True\<lparr>hExitEvent := False\<rparr>))
   \<and> hBufferReturnEvent (signalled_state True True)
   \<and> PlayerProc_round 0 (signalled_state True True)
       = (case FillBuffer (signalled_state True True\<lparr>hBufferReturnEvent := False\<rparr>) of
            Inl e \<Rightarrow> Inl e
          | Inr st' \<Rightarrow> Inr (Running (StreamOut 0 st')))
   \<and> PlayerProc_round 0 (signalled_state False False) = Inr Waiting"
proof -
  note s = signalled_state_signals
  from player_exit [of "signalled_state False True" 0] s
  have "PlayerProc_round 0 (signalled_state False True)
       = Inr (Returned (signalled_state False True\<lparr>hExitEvent := False\<rparr>))"
    by simp
  moreover from player_exit [of "signalled_state True True" 0] s
  have "PlayerProc_round 0 (signalled_state True True)
       = (case FillBuffer (signalled_state True True\<lparr>hBufferReturnEvent := False\<rparr>) of
            Inl e \<Rightarrow> Inl e
          | Inr st' \<Rightarrow> Inr (Running (StreamOut 0 st')))"
    by simp
  moreover from player_exit [of "signalled_state False False" 0] s
  have "PlayerProc_round 0 (signalled_state False False) = Inr Waiting"
    by simp
  ultimately show ?thesis using s by simp
qed

text \<open>
  As C4 is stated it fails: with both events signalled the round fills the buffer with
  the fifth event of the song and submits it, and the thread runs on.
\<close>

theorem player_exit_after_fill:
  "case PlayerProc_round 0 (signalled_state True True) of
     Inr (Running st') \<Rightarrow>
       position (song st') = 5 \<and> position (song (signalled_state True True)) = 4
       \<and> device st' = device (signalled_state True True)
                        @ [MidiStreamOut [\<lparr>dwDeltaTime = 0, dwStreamID = 0, dwEvent = 0x644790\<rparr>]]
       \<and> hExitEvent st'
   | _ \<Rightarrow> False"
  by code_simp

section \<open>Filling from a song that loops\<close>

lemma fill_event_filled:
  assumes "0 \<le> position (song st)"
    and "nat (position (song st)) < length (native_events (song st))"
    and "0 \<le> volume_factor st" and "volume_factor st \<le> 1"
  shows "\<exists>st'. fill_event i st = Inr st'
           \<and> buffer_events st'
               = (buffer_events st)
                   (i := filled (volume_factor st)
                           (native_events (song st) ! nat (position (song st))))
           \<and> song st' = (song st)\<lparr>position := position (song st) + 1\<rparr>
           \<and> volume_factor st' = volume_factor st
           \<and> buffer_num_events st' = buffer_num_events st"
proof -
  let ?ev = "native_events (song st) ! nat (position (song st))"
  let ?idx = "scaled_volume (volume_factor st) (uint (MIDIEVENT_VOLUME (dwEvent ?ev)))"
  from scaled_volume_range [OF assms(3,4) MIDIEVENT_VOLUME_range]
  have "0 \<le> ?idx" "?idx \<le> 127" .
  then have "volume_correction_at ?idx = Inr (volume_correction ! nat ?idx)"
    by (simp add: volume_correction_at_def)
  with assms(1,2) show ?thesis
    by (simp add: fill_event_def Let_def filled_def volume_test_def)
qed

lemma FillBuffer_loop_looping:
  assumes "loop_ready st" and "i \<le> STREAM_MAX_EVENTS"
  shows "\<exists>st'. FillBuffer_loop i st = Inr st'
           \<and> buffer_num_events st' = int STREAM_MAX_EVENTS
           \<and> loop_ready st' \<and> same_song st st'
           \<and> nat (position (song st')) mod nat (num_events (song st))
               = (nat (position (song st)) + (STREAM_MAX_EVENTS - i)) mod nat (num_events (song st))
           \<and> (\<forall>j < i. buffer_events st' j = buffer_events st j)
           \<and> (\<forall>j. i \<le> j \<and> j < STREAM_MAX_EVENTS \<longrightarrow>
                  buffer_events st' j = refilled st (j - i))
           \<and> (1 \<le> position (song st')
               \<or> i = STREAM_MAX_EVENTS \<and> position (song st') = position (song st))"
  using assms
proof (induction "STREAM_MAX_EVENTS - i" arbitrary: i st)
  case 0
  then have i: "i = STREAM_MAX_EVENTS" by simp
  have "FillBuffer_loop i st = Inr (st\<lparr>buffer_num_events := int i\<rparr>)"
    by (subst FillBuffer_loop.simps) (simp add: i)
  moreover have "loop_ready (st\<lparr>buffer_num_events := int i\<rparr>)"
    using "0.prems"(1) by (simp add: loop_ready_def)
  moreover have "same_song st (st\<lparr>buffer_num_events := int i\<rparr>)"
    by (simp add: same_song_def)
  ultimately show ?case using i by auto
next
  case (Suc n)
  let ?K = "nat (num_events (song st))" and ?p = "nat (position (song st))"
  let ?f = "volume_factor st" and ?ne = "native_events (song st)"
  from Suc.hyps(2) have i: "i < STREAM_MAX_EVENTS" and n: "n = STREAM_MAX_EVENTS - (i + 1)"
    by simp_all
  note r = Suc.prems(1) [unfolded loop_ready_def]
  from r have K: "0 < ?K" "?K \<le> length ?ne" and p: "?p \<le> ?K" by auto
  define s0 where
    "s0 = (if num_events (song st) \<le> position (song st)
           then st\<lparr>song := (song st)\<lparr>position := 0\<rparr>\<rparr> else st)"
  have unfold: "FillBuffer_loop i st =
      (case fill_event i s0 of Inl e \<Rightarrow> Inl e | Inr st1 \<Rightarrow> FillBuffer_loop (i + 1) st1)"
    using i r by (simp add: FillBuffer_loop.simps [of i st] s0_def)
  have p0: "nat (position (song s0)) = ?p mod ?K" "0 \<le> position (song s0)"
    using r by (auto simp: s0_def)
  have lt: "?p mod ?K < ?K" using K(1) by simp
  have s0: "native_events (song s0) = ?ne" "num_events (song s0) = num_events (song st)"
    "looping (song s0) = looping (song st)" "volume_factor s0 = ?f"
    "buffer_events s0 = buffer_events st"
    by (simp_all add: s0_def)
  from fill_event_filled [of s0 i] p0 lt K(2) s0 r
  obtain st1 where f: "fill_event i s0 = Inr st1"
    and b1: "buffer_events st1 = (buffer_events st)(i := filled ?f (?ne ! (?p mod ?K)))"
    and sg1: "song st1 = (song s0)\<lparr>position := position (song s0) + 1\<rparr>"
    and f1: "volume_factor st1 = ?f"
    by auto
  have pos1: "nat (position (song st1)) = Suc (?p mod ?K)"
    using sg1 p0 by (simp add: nat_add_distrib)
  from p0(1) lt have "nat (position (song s0)) < nat (num_events (song st))" by simp
  then have ps0: "position (song s0) < num_events (song st)" by (simp add: zless_nat_conj)
  have ready1: "loop_ready st1"
    using r sg1 s0 f1 p0(2) ps0 by (simp add: loop_ready_def)
  have same1: "same_song st st1" using sg1 s0 f1 by (simp add: same_song_def)
  from Suc.hyps(1) [OF n ready1] i
  obtain st' where res: "FillBuffer_loop (i + 1) st1 = Inr st'"
    and cnt: "buffer_num_events st' = int STREAM_MAX_EVENTS"
    and ready: "loop_ready st'" and same: "same_song st1 st'"
    and pos: "nat (position (song st')) mod nat (num_events (song st1))
               = (nat (position (song st1)) + (STREAM_MAX_EVENTS - (i + 1)))
                   mod nat (num_events (song st1))"
    and old: "\<forall>j < i + 1. buffer_events st' j = buffer_events st1 j"
    and new: "\<forall>j. i + 1 \<le> j \<and> j < STREAM_MAX_EVENTS \<longrightarrow>
                  buffer_events st' j = refilled st1 (j - (i + 1))"
    and adv: "1 \<le> position (song st')
               \<or> i + 1 = STREAM_MAX_EVENTS \<and> position (song st') = position (song st1)"
    by auto
  have "1 \<le> position (song st1)" using sg1 p0(2) by simp
  with adv have one: "1 \<le> position (song st')" by auto
  have K1: "nat (num_events (song st1)) = ?K" using same1 by (simp add: same_song_def)
  have shift: "(Suc (?p mod ?K) + k) mod ?K = (?p + Suc k) mod ?K" for k
  proof -
    have "(Suc (?p mod ?K) + k) mod ?K = (?p mod ?K + Suc k) mod ?K" by simp
    also have "\<dots> = (?p + Suc k) mod ?K" by (rule mod_add_left_eq)
    finally show ?thesis .
  qed
  have c1: "refilled st1 k = refilled st (Suc k)" for k
    using same1 pos1 shift [of k] K1 by (simp add: refilled_def cycled_def same_song_def)
  have "FillBuffer_loop i st = Inr st'" using unfold f res by simp
  moreover have "same_song st st'" using same1 same by (simp add: same_song_def)
  moreover have "nat (position (song st')) mod ?K = (?p + (STREAM_MAX_EVENTS - i)) mod ?K"
  proof -
    have "STREAM_MAX_EVENTS - i = Suc (STREAM_MAX_EVENTS - (i + 1))" using i by simp
    with pos pos1 K1 shift [of "STREAM_MAX_EVENTS - (i + 1)"] show ?thesis by simp
  qed
  moreover have "\<forall>j < i. buffer_events st' j = buffer_events st j"
    using old b1 by simp
  moreover have "\<forall>j. i \<le> j \<and> j < STREAM_MAX_EVENTS \<longrightarrow> buffer_events st' j = refilled st (j - i)"
  proof (intro allI impI)
    fix j
    assume j: "i \<le> j \<and> j < STREAM_MAX_EVENTS"
    show "buffer_events st' j = refilled st (j - i)"
    proof (cases "j = i")
      case True
      with old b1 show ?thesis by (simp add: refilled_def cycled_def)
    next
      case False
      with j have "i + 1 \<le> j" and e: "j - i = Suc (j - (i + 1))" by auto
      with new j c1 [of "j - (i + 1)"] show ?thesis by simp
    qed
  qed
  ultimately show ?case using cnt ready one by blast
qed

lemma FillBuffer_looping:
  assumes "loop_ready st"
  shows "\<exists>st'. FillBuffer st = Inr st'
           \<and> buffer_num_events st' = int STREAM_MAX_EVENTS
           \<and> window st' = map (refilled st) [0 ..< STREAM_MAX_EVENTS]
           \<and> loop_ready st' \<and> same_song st st'
           \<and> nat (position (song st')) mod nat (num_events (song st))
               = (nat (position (song st)) + STREAM_MAX_EVENTS) mod nat (num_events (song st))
           \<and> 1 \<le> position (song st')"
proof -
  from FillBuffer_loop_looping [OF assms, of 0]
  obtain st' where res: "FillBuffer_loop 0 st = Inr st'"
    and cnt: "buffer_num_events st' = int STREAM_MAX_EVENTS"
    and ready: "loop_ready st'" and same: "same_song st st'"
    and pos: "nat (position (song st')) mod nat (num_events (song st))
               = (nat (position (song st)) + STREAM_MAX_EVENTS) mod nat (num_events (song st))"
    and new: "\<forall>j. j < STREAM_MAX_EVENTS \<longrightarrow> buffer_events st' j = refilled st j"
    and one: "1 \<le> position (song st')"
    by (auto simp: STREAM_MAX_EVENTS_def)
  have "window st' = map (refilled st) [0 ..< STREAM_MAX_EVENTS]"
    using cnt new by (simp add: window_def)
  with res cnt ready same pos one show ?thesis by (simp add: FillBuffer_def)
qed

lemma refilled_shift:
  assumes "same_song st st'" and "0 < nat (num_events (song st))"
    and "nat (position (song st')) mod nat (num_events (song st))
           = (nat (position (song st)) + a) mod nat (num_events (song st))"
  shows "refilled st' j = refilled st (a + j)"
proof -
  let ?K = "nat (num_events (song st))"
  have "(nat (position (song st')) + j) mod ?K
          = (nat (position (song st')) mod ?K + j) mod ?K"
    by (simp add: mod_add_left_eq)
  also have "\<dots> = ((nat (position (song st)) + a) mod ?K + j) mod ?K"
    by (simp only: assms(3))
  also have "\<dots> = (nat (position (song st)) + (a + j)) mod ?K"
    by (simp add: mod_add_left_eq add.assoc)
  finally show ?thesis using assms(1) by (simp add: refilled_def cycled_def same_song_def)
qed

lemma fills_looping:
  assumes "loop_ready st"
  shows "\<exists>st'. fills n st = Inr (map (refilled st) [0 ..< STREAM_MAX_EVENTS * n], st')
           \<and> loop_ready st' \<and> same_song st st'"
  using assms
proof (induction n arbitrary: st)
  case 0
  then show ?case by (simp add: same_song_def)
next
  case (Suc n)
  from FillBuffer_looping [OF Suc.prems]
  obtain st1 where f: "FillBuffer st = Inr st1"
    and w: "window st1 = map (refilled st) [0 ..< STREAM_MAX_EVENTS]"
    and ready1: "loop_ready st1" and same1: "same_song st st1"
    and pos: "nat (position (song st1)) mod nat (num_events (song st))
               = (nat (position (song st)) + STREAM_MAX_EVENTS) mod nat (num_events (song st))"
    by blast
  from Suc.IH [OF ready1]
  obtain st' where r: "fills n st1 = Inr (map (refilled st1) [0 ..< STREAM_MAX_EVENTS * n], st')"
    and ready: "loop_ready st'" and same: "same_song st1 st'"
    by blast
  have K: "0 < nat (num_events (song st))" using Suc.prems by (simp add: loop_ready_def)
  have c: "refilled st1 j = refilled st (STREAM_MAX_EVENTS + j)" for j
    by (rule refilled_shift [OF same1 K pos])
  have "map (refilled st) [0 ..< STREAM_MAX_EVENTS] @ map (refilled st1) [0 ..< STREAM_MAX_EVENTS * n]
          = map (refilled st) [0 ..< STREAM_MAX_EVENTS * Suc n]"
  proof -
    have "map (refilled st1) [0 ..< STREAM_MAX_EVENTS * n]
            = map (refilled st) (map (\<lambda>j. j + STREAM_MAX_EVENTS) [0 ..< STREAM_MAX_EVENTS * n])"
      by (simp add: c add.commute)
    also have "\<dots> = map (refilled st) [STREAM_MAX_EVENTS ..< STREAM_MAX_EVENTS * n + STREAM_MAX_EVENTS]"
      by (simp only: map_add_upt)
    finally have "map (refilled st) [0 ..< STREAM_MAX_EVENTS]
                    @ map (refilled st1) [0 ..< STREAM_MAX_EVENTS * n]
        = map (refilled st) ([0 ..< STREAM_MAX_EVENTS]
             @ [STREAM_MAX_EVENTS ..< STREAM_MAX_EVENTS * n + STREAM_MAX_EVENTS])"
      by simp
    also have "[0 ..< STREAM_MAX_EVENTS]
                 @ [STREAM_MAX_EVENTS ..< STREAM_MAX_EVENTS * n + STREAM_MAX_EVENTS]
               = [0 ..< STREAM_MAX_EVENTS * n + STREAM_MAX_EVENTS]"
    proof -
      have "[0 ..< STREAM_MAX_EVENTS + STREAM_MAX_EVENTS * n]
              = [0 ..< STREAM_MAX_EVENTS]
                  @ [STREAM_MAX_EVENTS ..< STREAM_MAX_EVENTS + STREAM_MAX_EVENTS * n]"
        by (rule upt_add_eq_append) simp
      then show ?thesis by (simp add: add.commute)
    qed
    finally show ?thesis by (simp add: add.commute)
  qed
  with f w r have "fills (Suc n) st = Inr (map (refilled st) [0 ..< STREAM_MAX_EVENTS * Suc n], st')"
    by simp
  moreover have "same_song st st'" using same1 same by (simp add: same_song_def)
  ultimately show ?case using ready by blast
qed

lemma refilled_cycled: "refilled st j = filled (volume_factor st) (cycled st j)"
  by (simp add: refilled_def)

lemma filled_streamed: "\<not> mistaken ev \<Longrightarrow> filled factor ev = streamed factor ev"
  by (auto simp: filled_def streamed_def is_main_volume_def mistaken_def)

lemma streamed_fields:
  "dwDeltaTime (streamed factor ev) = dwDeltaTime ev"
  "dwStreamID (streamed factor ev) = dwStreamID ev"
  "dwEvent (streamed factor ev) AND 0xFF00FFFF = dwEvent ev AND 0xFF00FFFF"
  by (simp_all add: streamed_def bit.conj_disj_distrib2 and.assoc)

lemma streamed_other: "\<not> is_main_volume ev \<Longrightarrow> streamed factor ev = ev"
  by (simp add: streamed_def)

text \<open>
  C5, as the code has it by design. For a song of K >= 1 events that loops, with its
  cursor within the song or at its end and a scale factor from 0 to 1, every fill fills
  all 4 slots of the window, wrapping the cursor from K to 0 in the middle of a fill when
  it gets there, and leaves the cursor from 1 to K. The windows of successive fills, one
  after the other, hold the events of the song from the cursor on, again and again from
  the first after the last, none left out and none twice: each as \<open>streamed\<close> gives it,
  which is the event of the song itself unless it is a main volume event, and then
  differs from it in the volume byte alone. Nothing is said of what a slot holds for an
  entry that is taken for a main volume event by mistake.
\<close>

theorem loop_fill:
  "(loop_ready st \<longrightarrow>
      (\<exists>st'. FillBuffer st = Inr st'
         \<and> buffer_num_events st' = 4
         \<and> length (window st') = 4
         \<and> (\<forall>j < 4. \<not> mistaken (cycled st j) \<longrightarrow>
                window st' ! j = streamed (volume_factor st) (cycled st j))
         \<and> loop_ready st' \<and> same_song st st'
         \<and> 1 \<le> position (song st')
         \<and> nat (position (song st')) mod nat (num_events (song st))
             = (nat (position (song st)) + 4) mod nat (num_events (song st)))
      \<and> (\<exists>evs st'. fills n st = Inr (evs, st')
            \<and> length evs = 4 * n
            \<and> (\<forall>j < 4 * n. \<not> mistaken (cycled st j) \<longrightarrow>
                   evs ! j = streamed (volume_factor st) (cycled st j))
            \<and> loop_ready st' \<and> same_song st st'))
   \<and> (\<not> is_main_volume ev \<longrightarrow> streamed factor ev = ev)
   \<and> dwDeltaTime (streamed factor ev) = dwDeltaTime ev
   \<and> dwStreamID (streamed factor ev) = dwStreamID ev
   \<and> dwEvent (streamed factor ev) AND 0xFF00FFFF = dwEvent ev AND 0xFF00FFFF"
proof (intro conjI impI)
  assume r: "loop_ready st"
  from FillBuffer_looping [OF r]
  obtain st' where f: "FillBuffer st = Inr st'"
    and c: "buffer_num_events st' = int STREAM_MAX_EVENTS"
    and w: "window st' = map (refilled st) [0 ..< STREAM_MAX_EVENTS]"
    and r': "loop_ready st'" and s: "same_song st st'"
    and p: "nat (position (song st')) mod nat (num_events (song st))
             = (nat (position (song st)) + STREAM_MAX_EVENTS) mod nat (num_events (song st))"
    and one: "1 \<le> position (song st')"
    by blast
  from w have len: "length (window st') = 4" by (simp add: STREAM_MAX_EVENTS_def)
  have nth: "window st' ! j = streamed (volume_factor st) (cycled st j)"
    if "j < 4" "\<not> mistaken (cycled st j)" for j
    using that w by (simp add: STREAM_MAX_EVENTS_def refilled_cycled filled_streamed)
  show "\<exists>st'. FillBuffer st = Inr st'
         \<and> buffer_num_events st' = 4
         \<and> length (window st') = 4
         \<and> (\<forall>j < 4. \<not> mistaken (cycled st j) \<longrightarrow>
                window st' ! j = streamed (volume_factor st) (cycled st j))
         \<and> loop_ready st' \<and> same_song st st'
         \<and> 1 \<le> position (song st')
         \<and> nat (position (song st')) mod nat (num_events (song st))
             = (nat (position (song st)) + 4) mod nat (num_events (song st))"
    using f c len nth r' s p one by (auto simp: STREAM_MAX_EVENTS_def)
  from fills_looping [OF r, of n]
  obtain st'' where fs: "fills n st = Inr (map (refilled st) [0 ..< STREAM_MAX_EVENTS * n], st'')"
    and r'': "loop_ready st''" and s'': "same_song st st''"
    by blast
  let ?evs = "map (refilled st) [0 ..< STREAM_MAX_EVENTS * n]"
  have "length ?evs = 4 * n" by (simp add: STREAM_MAX_EVENTS_def)
  moreover have "\<forall>j < 4 * n. \<not> mistaken (cycled st j) \<longrightarrow>
      ?evs ! j = streamed (volume_factor st) (cycled st j)"
    by (simp add: STREAM_MAX_EVENTS_def refilled_cycled filled_streamed)
  ultimately show "\<exists>evs st'. fills n st = Inr (evs, st')
            \<and> length evs = 4 * n
            \<and> (\<forall>j < 4 * n. \<not> mistaken (cycled st j) \<longrightarrow>
                   evs ! j = streamed (volume_factor st) (cycled st j))
            \<and> loop_ready st' \<and> same_song st st'"
    using fs r'' s'' by blast
next
  assume "\<not> is_main_volume ev"
  then show "streamed factor ev = ev" by (rule streamed_other)
qed (rule streamed_fields)+

lemma looping_example_ready: "loop_ready looping_state"
  by code_simp

lemma looping_example_sound: "list_all (\<lambda>j. \<not> mistaken (cycled looping_state j)) [0 ..< 8]"
  by code_simp

lemma looping_example_cycle:
  "map (\<lambda>j. streamed (volume_factor looping_state) (cycled looping_state j)) [0 ..< 8] =
     [\<lparr>dwDeltaTime = 10, dwStreamID = 0, dwEvent = 0x644090\<rparr>,
      \<lparr>dwDeltaTime = 0, dwStreamID = 0, dwEvent = 0x0107A120\<rparr>,
      \<lparr>dwDeltaTime = 0, dwStreamID = 0, dwEvent = 0x3307B1\<rparr>,
      \<lparr>dwDeltaTime = 10, dwStreamID = 0, dwEvent = 0x643C90\<rparr>,
      \<lparr>dwDeltaTime = 10, dwStreamID = 0, dwEvent = 0x643E90\<rparr>,
      \<lparr>dwDeltaTime = 10, dwStreamID = 0, dwEvent = 0x644090\<rparr>,
      \<lparr>dwDeltaTime = 0, dwStreamID = 0, dwEvent = 0x0107A120\<rparr>,
      \<lparr>dwDeltaTime = 0, dwStreamID = 0, dwEvent = 0x3307B1\<rparr>]"
  by code_simp

lemma looping_example_third:
  "streamed (volume_factor looping_state) (cycled looping_state 2)
     = \<lparr>dwDeltaTime = 0, dwStreamID = 0, dwEvent = 0x3307B1\<rparr>"
  by code_simp

lemma looping_example_song:
  "take 5 (native_events (song looping_state)) =
     [\<lparr>dwDeltaTime = 0, dwStreamID = 0, dwEvent = 0x0107A120\<rparr>,
      \<lparr>dwDeltaTime = 0, dwStreamID = 0, dwEvent = 0x4007B1\<rparr>,
      \<lparr>dwDeltaTime = 10, dwStreamID = 0, dwEvent = 0x643C90\<rparr>,
      \<lparr>dwDeltaTime = 10, dwStreamID = 0, dwEvent = 0x643E90\<rparr>,
      \<lparr>dwDeltaTime = 10, dwStreamID = 0, dwEvent = 0x644090\<rparr>]
   \<and> num_events (song looping_state) = 5 \<and> position (song looping_state) = 4
   \<and> volume_factor looping_state = 1"
  by code_simp

lemma looping_example_volume:
  "is_main_volume \<lparr>dwDeltaTime = 0, dwStreamID = 0, dwEvent = 0x4007B1\<rparr>
   \<and> \<not> is_main_volume \<lparr>dwDeltaTime = 0, dwStreamID = 0, dwEvent = 0x0107A120\<rparr>"
  by code_simp

theorem loop_fill_witness:
  "loop_ready looping_state
   \<and> take 5 (native_events (song looping_state)) =
       [\<lparr>dwDeltaTime = 0, dwStreamID = 0, dwEvent = 0x0107A120\<rparr>,
        \<lparr>dwDeltaTime = 0, dwStreamID = 0, dwEvent = 0x4007B1\<rparr>,
        \<lparr>dwDeltaTime = 10, dwStreamID = 0, dwEvent = 0x643C90\<rparr>,
        \<lparr>dwDeltaTime = 10, dwStreamID = 0, dwEvent = 0x643E90\<rparr>,
        \<lparr>dwDeltaTime = 10, dwStreamID = 0, dwEvent = 0x644090\<rparr>]
   \<and> num_events (song looping_state) = 5 \<and> position (song looping_state) = 4
   \<and> volume_factor looping_state = 1
   \<and> (\<exists>st'. fills 2 looping_state =
          Inr ([\<lparr>dwDeltaTime = 10, dwStreamID = 0, dwEvent = 0x644090\<rparr>,
                \<lparr>dwDeltaTime = 0, dwStreamID = 0, dwEvent = 0x0107A120\<rparr>,
                \<lparr>dwDeltaTime = 0, dwStreamID = 0, dwEvent = 0x3307B1\<rparr>,
                \<lparr>dwDeltaTime = 10, dwStreamID = 0, dwEvent = 0x643C90\<rparr>,
                \<lparr>dwDeltaTime = 10, dwStreamID = 0, dwEvent = 0x643E90\<rparr>,
                \<lparr>dwDeltaTime = 10, dwStreamID = 0, dwEvent = 0x644090\<rparr>,
                \<lparr>dwDeltaTime = 0, dwStreamID = 0, dwEvent = 0x0107A120\<rparr>,
                \<lparr>dwDeltaTime = 0, dwStreamID = 0, dwEvent = 0x3307B1\<rparr>], st'))
   \<and> (\<exists>st'. FillBuffer looping_state = Inr st' \<and> buffer_num_events st' = 4
          \<and> window st' ! 2 = \<lparr>dwDeltaTime = 0, dwStreamID = 0, dwEvent = 0x3307B1\<rparr>)
   \<and> is_main_volume \<lparr>dwDeltaTime = 0, dwStreamID = 0, dwEvent = 0x4007B1\<rparr>
   \<and> \<not> is_main_volume \<lparr>dwDeltaTime = 0, dwStreamID = 0, dwEvent = 0x0107A120\<rparr>
   \<and> streamed 1 \<lparr>dwDeltaTime = 0, dwStreamID = 0, dwEvent = 0x0107A120\<rparr>
       = \<lparr>dwDeltaTime = 0, dwStreamID = 0, dwEvent = 0x0107A120\<rparr>"
proof -
  let ?st = looping_state
  let ?ev = "\<lparr>dwDeltaTime = 0, dwStreamID = 0, dwEvent = 0x0107A120\<rparr>"
  let ?want = "map (\<lambda>j. streamed (volume_factor ?st) (cycled ?st j)) [0 ..< 8]"
  note t = loop_fill [of ?st 2 ?ev 1]
  note sound = looping_example_sound [unfolded list_all_length]
  have ok: "\<not> mistaken (cycled ?st j)" if "j < 8" for j
    using sound that by simp
  from t looping_example_ready
  obtain evs st' where f: "fills 2 ?st = Inr (evs, st')" and len: "length evs = 4 * 2"
    and nth: "\<forall>j < 4 * 2. \<not> mistaken (cycled ?st j) \<longrightarrow>
                evs ! j = streamed (volume_factor ?st) (cycled ?st j)"
    by blast
  have "evs = ?want"
  proof (rule nth_equalityI)
    show "length evs = length ?want" using len by simp
    fix j
    assume "j < length evs"
    with len have j: "j < 8" by simp
    with nth ok [OF j] show "evs ! j = ?want ! j" by simp
  qed
  with f have a: "\<exists>st'. fills 2 ?st = Inr (?want, st')" by blast
  from t looping_example_ready
  obtain st1 where f1: "FillBuffer ?st = Inr st1" and c1: "buffer_num_events st1 = 4"
    and nth1: "\<forall>j < 4. \<not> mistaken (cycled ?st j) \<longrightarrow>
                 window st1 ! j = streamed (volume_factor ?st) (cycled ?st j)"
    by blast
  from nth1 ok [of 2]
  have "window st1 ! 2 = streamed (volume_factor ?st) (cycled ?st 2)" by simp
  with f1 c1 have b: "\<exists>st'. FillBuffer ?st = Inr st' \<and> buffer_num_events st' = 4
          \<and> window st' ! 2 = \<lparr>dwDeltaTime = 0, dwStreamID = 0, dwEvent = 0x3307B1\<rparr>"
    unfolding looping_example_third by blast
  from t looping_example_volume have c: "streamed 1 ?ev = ?ev" by blast
  from looping_example_ready looping_example_song a b looping_example_volume c
  show ?thesis
    unfolding looping_example_cycle by simp
qed

text \<open>
  As C5 is stated, the windows being the event array repeated, it fails for a song with a
  main volume event: of the song of \<open>volume_file\<close>, whose first event sets the volume 64,
  the window holds that event with the volume 51, the corrected one at the scale 1.0.
\<close>

theorem loop_fill_substitutes:
  "case FillBuffer (I_WIN_PlaySong True 0 (registered volume_file)) of
     Inl e \<Rightarrow> False
   | Inr st' \<Rightarrow>
       take 2 (native_events (song st'))
         = [\<lparr>dwDeltaTime = 0, dwStreamID = 0, dwEvent = 0x4007B0\<rparr>,
            \<lparr>dwDeltaTime = 10, dwStreamID = 0, dwEvent = 0x643C90\<rparr>]
       \<and> num_events (song st') = 2
       \<and> window st'
           = [\<lparr>dwDeltaTime = 0, dwStreamID = 0, dwEvent = 0x3307B0\<rparr>,
              \<lparr>dwDeltaTime = 10, dwStreamID = 0, dwEvent = 0x643C90\<rparr>,
              \<lparr>dwDeltaTime = 0, dwStreamID = 0, dwEvent = 0x3307B0\<rparr>,
              \<lparr>dwDeltaTime = 10, dwStreamID = 0, dwEvent = 0x643C90\<rparr>]"
  by code_simp

text \<open>
  The test of \<^verbatim>\<open>FillBuffer\<close> does not look at the tag of an entry. The tempo of
  \<open>tempo_file\<close> packs to \<open>0x010707B0\<close>, which passes the test: the fill replaces the top
  byte of the tempo by a corrected volume and puts 7 on record as the volume of
  channel 0.
\<close>

lemma tempo_entry_rewritten:
  "mistaken \<lparr>dwDeltaTime = 0, dwStreamID = 0, dwEvent = 0x010707B0\<rparr>
   \<and> (case FillBuffer (I_WIN_PlaySong True 0 (registered tempo_file)) of
        Inl e \<Rightarrow> False
      | Inr st' \<Rightarrow>
          native_events (song st') ! 0
            = \<lparr>dwDeltaTime = 0, dwStreamID = 0, dwEvent = 0x010707B0\<rparr>
          \<and> window st' ! 0 = \<lparr>dwDeltaTime = 0, dwStreamID = 0, dwEvent = 0x011207B0\<rparr>
          \<and> channel_volume st' 0 = 7)"
  by code_simp

end
